theory Spec2Isabelle
  imports Main "HOL-Library.Sublist"
begin

section \<open>Placeholder tokens and the driver's substitution pass\<close>

text \<open>
  The asynchronous renderer of \<^verbatim>\<open>packages/solid/src/static/rendering.ts\<close> leaves the text
  \<^verbatim>\<open><#id#>\<close> where a Suspense boundary is still pending, and the driver
  (\<^verbatim>\<open>awaitSuspense\<close>) later replaces each such token by the fragment cached for its id.
  Strings are modelled as \<^typ>\<open>string\<close>; the operations used (\<^verbatim>\<open>match\<close>,
  \<^verbatim>\<open>substring\<close>, \<^verbatim>\<open>+\<close>) work on code units and translate to list operations.
\<close>

subsection \<open>The token pattern\<close>

text \<open>
  \<^verbatim>\<open>const SUSPENSE_REPLACE = /<#([0-9\.]+)\#>/;\<close>

  The character class accepts the ten decimal digits and the dot.
\<close>

definition is_idc :: "char \<Rightarrow> bool" where
  "is_idc c = (c \<in> set ''0123456789.'')"

text \<open>
  \<open>match_at s\<close> is the attempt to match the pattern at the first position of \<open>s\<close>: the two
  characters \<^verbatim>\<open><#\<close>, then the longest run of class characters (the quantifier is greedy),
  which must not be empty, then \<^verbatim>\<open>#>\<close>. A shorter run never helps the regular expression
  engine when it backtracks, since the character after a shorter run is a class character
  and not \<^verbatim>\<open>#\<close>. The result is the captured id (\<^verbatim>\<open>match[1]\<close>) and the text after the token.
\<close>

fun match_at :: "string \<Rightarrow> (string \<times> string) option" where
  "match_at (c1 # c2 # t) =
     (if c1 = CHR ''<'' \<and> c2 = CHR ''#'' then
        (let ds = takeWhile is_idc t; r = dropWhile is_idc t in
          if ds \<noteq> [] \<and> take 2 r = ''#>'' then Some (ds, drop 2 r) else None)
      else None)"
| "match_at _ = None"

text \<open>
  \<open>smatch source\<close> is \<^verbatim>\<open>source.match(SUSPENSE_REPLACE)\<close>: the leftmost position at which the
  pattern matches. The result \<open>(p, i, r)\<close> holds \<^verbatim>\<open>source.substring(0, match.index)\<close>, the
  id \<^verbatim>\<open>match[1]\<close> and \<^verbatim>\<open>source.substring(match.index + match[0].length)\<close>; \<open>None\<close> is
  the \<^verbatim>\<open>null\<close> of no match.
\<close>

fun smatch :: "string \<Rightarrow> (string \<times> string \<times> string) option" where
  "smatch [] = None"
| "smatch (c # cs) =
     (case match_at (c # cs) of
        Some (i, r) \<Rightarrow> Some ([], i, r)
      | None \<Rightarrow> (case smatch cs of
                  None \<Rightarrow> None
                | Some (p, i, r) \<Rightarrow> Some (c # p, i, r)))"

subsection \<open>The substitution loop\<close>

text \<open>
  \<^verbatim>\<open>const cache: Record<string, string> = Object.create(null);\<close>

  The cache has no prototype, so a lookup finds exactly the keys that were stored. A missing
  key reads as \<^verbatim>\<open>undefined\<close>, and \<^verbatim>\<open>undefined + string\<close> is the text \<^verbatim>\<open>undefined\<close>
  followed by the string.
\<close>

type_synonym cache = "string \<rightharpoonup> string"

definition cache_get :: "cache \<Rightarrow> string \<Rightarrow> string" where
  "cache_get cache k = (case cache k of None \<Rightarrow> ''undefined'' | Some v \<Rightarrow> v)"

text \<open>
  \<^verbatim>\<open>
  let final = "";
  let match: any;
  while ((match = source.match(SUSPENSE_REPLACE))) {
    final += source.substring(0, match.index);
    source = cache[match[1]] + source.substring(match.index + match[0].length);
  }
  resolve(final + source);
  \<close>
  The loop may run forever, so it is a partial function: \<open>None\<close> is the loop that never
  leaves, \<open>Some out\<close> the string passed to \<^verbatim>\<open>resolve\<close>.
\<close>

partial_function (option) subst_loop :: "cache \<Rightarrow> string \<Rightarrow> string \<Rightarrow> string option" where
  "subst_loop cache final source =
     (case smatch source of
        None \<Rightarrow> Some (final @ source)
      | Some (p, i, r) \<Rightarrow> subst_loop cache (final @ p) (cache_get cache i @ r))"

subsection \<open>Vocabulary of the substitution claims\<close>

text \<open>
  \<open>nolt s\<close>: the text \<open>s\<close> holds no \<^verbatim>\<open><#\<close> and does not end in \<^verbatim>\<open><\<close>, so no token
  starts inside it, whatever text follows.
\<close>

fun nolt :: "string \<Rightarrow> bool" where
  "nolt [] = True"
| "nolt [c] = (c \<noteq> CHR ''<'')"
| "nolt (c # d # cs) = (\<not> (c = CHR ''<'' \<and> d = CHR ''#'') \<and> nolt (d # cs))"

text \<open>
  \<open>tok_ids s\<close> lists the ids of the tokens that start at some position of \<open>s\<close>, from left
  to right. Tokens cannot overlap (a token holds one \<^verbatim>\<open><\<close>, its first character), so these
  are the tokens that successive scans of the string find.
\<close>
fun tok_ids :: "string \<Rightarrow> string list" where
  "tok_ids [] = []"
| "tok_ids (c # cs) =
     (case match_at (c # cs) of Some (i, r) \<Rightarrow> i # tok_ids cs | None \<Rightarrow> tok_ids cs)"

text \<open>
  \<open>plain_text s\<close>: every stretch of \<open>s\<close> that lies between its tokens is \<open>nolt\<close>.
\<close>

inductive plain_text :: "string \<Rightarrow> bool" where
  plain_last: "smatch s = None \<Longrightarrow> nolt s \<Longrightarrow> plain_text s"
| plain_token: "smatch s = Some (p, i, r) \<Longrightarrow> nolt p \<Longrightarrow> plain_text r \<Longrightarrow> plain_text s"

code_pred plain_text .

text \<open>
  Every token id of the root string and of every cached fragment has a cache entry.
\<close>

definition all_tokens_cached :: "cache \<Rightarrow> string \<Rightarrow> bool" where
  "all_tokens_cached cache root =
     (set (tok_ids root) \<subseteq> dom cache \<and> (\<forall>f\<in>ran cache. set (tok_ids f) \<subseteq> dom cache))"

text \<open>
  The nesting of fragments is well founded: a rank on ids drops from a cached fragment's id
  to the id of every token inside the fragment.
\<close>

definition nesting_ranked :: "cache \<Rightarrow> (string \<Rightarrow> nat) \<Rightarrow> bool" where
  "nesting_ranked cache rank =
     (\<forall>i f. cache i = Some f \<longrightarrow> (\<forall>j\<in>set (tok_ids f). rank j < rank i))"

text \<open>The root string and every cached fragment are \<open>plain_text\<close>.\<close>

definition all_plain :: "cache \<Rightarrow> string \<Rightarrow> bool" where
  "all_plain cache root = (plain_text root \<and> (\<forall>f\<in>ran cache. plain_text f))"

text \<open>
  The expansion the specification describes, as a relation: the text up to the first token
  stays, the token is replaced by the expansion of its cached fragment, and the rest of the
  string is expanded in the same way.
\<close>

inductive expands :: "cache \<Rightarrow> string \<Rightarrow> string \<Rightarrow> bool" for cache where
  expands_text: "smatch s = None \<Longrightarrow> expands cache s s"
| expands_token: "smatch s = Some (p, i, r) \<Longrightarrow> cache i = Some f \<Longrightarrow>
     expands cache f e1 \<Longrightarrow> expands cache r e2 \<Longrightarrow> expands cache s (p @ e1 @ e2)"

code_pred expands .

section \<open>The rendering state\<close>

text \<open>
  The rest of \<^verbatim>\<open>rendering.ts\<close> works on mutable state reached through the exported
  object \<^verbatim>\<open>sharedConfig\<close>, through closures and through promises. The model passes this state
  explicitly: every operation takes an \<open>rstate\<close> and returns the next one. An operation
  that can throw returns \<open>Inl\<close> of the exception together with the state it leaves behind.
\<close>

subsection \<open>Rendered values\<close>

text \<open>
  A rendered value (\<^verbatim>\<open>JSX.Element\<close> on the server, and any value a resource resolves to): a
  string, \<^verbatim>\<open>null\<close> or \<^verbatim>\<open>undefined\<close>, a boolean, an array, an object (given by its field
  \<^verbatim>\<open>t\<close>, which is \<open>Nullish\<close> when the object has none), a function (given by what a call
  returns) or any other primitive (given by its \<^verbatim>\<open>String(...)\<close> form).

  \<^verbatim>\<open>
  function resolveSSRNode(node: any): string {
    const t = typeof node;
    if (t === "string") return node;
    if (node == null || t === "boolean") return "";
    if (Array.isArray(node)) return node.map(resolveSSRNode).join("");
    if (t === "object") return resolveSSRNode(node.t);
    if (t === "function") return resolveSSRNode(node());
    return String(node);
  }
  \<close>
\<close>

datatype node = Str string | Nullish | Bool bool | Arr "node list" | Obj node | Fn node | Other string

fun resolveSSRNode :: "node \<Rightarrow> string" where
  "resolveSSRNode (Str s) = s"
| "resolveSSRNode Nullish = []"
| "resolveSSRNode (Bool b) = []"
| "resolveSSRNode (Arr ns) = concat (map resolveSSRNode ns)"
| "resolveSSRNode (Obj t) = resolveSSRNode t"
| "resolveSSRNode (Fn r) = resolveSSRNode r"
| "resolveSSRNode (Other s) = s"

text \<open>
  Exceptions: the \<^verbatim>\<open>TypeError\<close> of the language (a property read on \<^verbatim>\<open>undefined\<close>, a call of
  \<^verbatim>\<open>undefined\<close>, \<^verbatim>\<open>in\<close> applied to a primitive) and whatever user code throws.
\<close>

datatype exn = TypeError | Thrown string

subsection \<open>Numbers in identifiers\<close>

text \<open>
  Identifiers are built with \<^verbatim>\<open>ctx.id + ctx.count\<close> and a template literal, so the counter
  appears in decimal. The counter starts at 0 and grows by one; it is modelled as a natural
  number, which is what a JavaScript number is for every count a render can reach (integers
  are exact below \<open>2^53\<close> and printed without exponent below \<open>10^21\<close>).
\<close>

definition digit_char :: "nat \<Rightarrow> char" where
  "digit_char d = ''0123456789'' ! d"

function string_of_nat :: "nat \<Rightarrow> string" where
  "string_of_nat n =
     (if n < 10 then [digit_char n] else string_of_nat (n div 10) @ [digit_char (n mod 10)])"
  by pat_completeness auto
termination
  by (relation "measure id") auto

declare string_of_nat.simps [simp del]

text \<open>\<^verbatim>\<open>Set.prototype.add\<close> on a set kept in insertion order.\<close>

definition set_add :: "'a \<Rightarrow> 'a list \<Rightarrow> 'a list" where
  "set_add x xs = (if x \<in> set xs then xs else xs @ [x])"

subsection \<open>The data model\<close>

text \<open>
  \<^verbatim>\<open>
  type HydrationContext = {
    id: string;
    count: number;
    writeResource?: (id: string, v: Promise<any>) => void;
    resources: Record<string, any>;
    suspense: Record<string, SuspenseContextValue>;
    async?: boolean;
    streaming?: boolean;
  };
  \<close>
  A hydration context is an object; \<^verbatim>\<open>nextHydrateContext\<close> and \<^verbatim>\<open>runSuspense\<close> copy it with
  the spread operator. The fields \<^verbatim>\<open>resources\<close> and \<^verbatim>\<open>suspense\<close> hold references, so every
  context of a render reaches the same two stores: they are fields of the state, not of the
  context record. An absent flag reads as false. Of \<^verbatim>\<open>writeResource\<close> only its presence is
  kept; its calls are recorded in the state.
\<close>

record hctx =
  hc_id :: string
  hc_count :: nat
  hc_async :: bool
  hc_streaming :: bool
  hc_writeResource :: bool

text \<open>
  \<^verbatim>\<open>
  type SuspenseContextValue = {
    completedCount: number;
    resources: Set<string>;
    completed: () => void;
  };
  \<close>
  One such object exists per boundary id in the \<^verbatim>\<open>suspense\<close> store, so the id stands for the
  object. The closure \<^verbatim>\<open>completed\<close> cannot be a field of a state it works on; it is the
  function \<open>completed_cb\<close> below, and the code that calls it takes the table of these
  closures as a parameter (\<open>callbacks\<close>).
\<close>

record susp =
  completedCount :: nat
  sresources :: "string list"

text \<open>
  The variables a call of \<^verbatim>\<open>createResource\<close> closes over: \<^verbatim>\<open>id\<close>, \<^verbatim>\<open>value\<close>, the public
  flag \<^verbatim>\<open>read.loading\<close> and the set \<^verbatim>\<open>contexts\<close> (of boundary objects, here their ids). The
  state keeps these instances in a store indexed by allocation order.
\<close>

record resource =
  r_id :: string
  r_value :: node
  r_loading :: bool
  r_contexts :: "string list"

text \<open>The variables a call of \<^verbatim>\<open>lazy\<close> closes over: whether \<^verbatim>\<open>resolved\<close> is set, and \<^verbatim>\<open>contexts\<close>.\<close>

record lazy_inst =
  l_resolved :: bool
  l_contexts :: "string list"

text \<open>The promise \<^verbatim>\<open>awaitSuspense\<close> returns.\<close>

datatype settled = Pending | Resolved node | Rejected exn

text \<open>
  Two calls are recorded in a trace, so that claims about how often they happen can be
  stated: a call of a callback returned by \<^verbatim>\<open>getCallback\<close> (the boundary's done signal, with
  its key and argument) and a call of a boundary's \<^verbatim>\<open>completed\<close>. No modelled code reads the
  trace.
\<close>

datatype event = Done string "string option" | Completed string

text \<open>
  The state:
  \<^item> \<open>shared_context\<close>: \<^verbatim>\<open>sharedConfig.context\<close>. Only \<^verbatim>\<open>count\<close> of a context object is ever
    assigned, and only through this slot, so the slot holds the record by value;
  \<^item> \<open>resources\<close>, \<open>suspense\<close>: the two stores shared by the contexts of a render;
  \<^item> \<open>provided\<close>: the boundary whose value \<^verbatim>\<open>useContext(SuspenseContext)\<close> finds;
  \<^item> \<open>rinsts\<close>, \<open>linsts\<close>, \<open>allocated\<close>: the resource and lazy instances created so far;
  \<^item> \<open>handlers\<close>: the reactions \<^verbatim>\<open>load\<close> attached with \<^verbatim>\<open>p.then\<close> (promise, instance);
    \<open>lhandlers\<close>: those attached by a lazy component; \<open>written\<close>: the calls of
    \<^verbatim>\<open>writeResource\<close>;
  \<^item> \<open>installed\<close>: whether \<^verbatim>\<open>lookup(Owner, SUSPENSE_GLOBAL)\<close> finds the driver's
    \<^verbatim>\<open>getCallback\<close>;
  \<^item> \<open>registry\<close>, \<open>dcache\<close>, \<open>memo\<close>, \<open>promise\<close>: the driver's \<^verbatim>\<open>registry\<close>, \<^verbatim>\<open>cache\<close>,
    the value of \<^verbatim>\<open>res()\<close> and the state of the promise; \<open>microtasks\<close>: the substitution
    passes queued with \<^verbatim>\<open>queueMicrotask\<close>;
  \<^item> \<open>trace\<close>: the recorded calls.
\<close>

record rstate =
  shared_context :: "hctx option"
  resources :: "string \<rightharpoonup> node"
  suspense :: "string \<rightharpoonup> susp"
  provided :: "string option"
  rinsts :: "nat \<rightharpoonup> resource"
  linsts :: "nat \<rightharpoonup> lazy_inst"
  allocated :: nat
  handlers :: "(nat \<times> nat) list"
  lhandlers :: "nat list"
  written :: "(string \<times> nat) list"
  installed :: bool
  registry :: "string set"
  dcache :: cache
  microtasks :: nat
  memo :: "node option"
  promise :: settled
  trace :: "event list"

text \<open>
  User code (a component, the children of a boundary, a producer) is any function on the
  state that returns a value or throws. A boundary's properties: \<^verbatim>\<open>fallback\<close> and the getter
  \<^verbatim>\<open>children\<close>.
\<close>

type_synonym 'a comp = "rstate \<Rightarrow> (exn + 'a) \<times> rstate"

type_synonym callbacks = "string \<Rightarrow> rstate \<Rightarrow> exn option \<times> rstate"

record props =
  fallback :: node
  children :: "node comp"

subsection \<open>Hydration contexts and components\<close>

text \<open>
  \<^verbatim>\<open>
  function setHydrateContext(context?: HydrationContext): void {
    sharedConfig.context = context;
  }

  function nextHydrateContext(): HydrationContext | undefined {
    return sharedConfig.context
      ? {
          ...sharedConfig.context,
          id: `${sharedConfig.context.id}${sharedConfig.context.count++}.`,
          count: 0
        }
      : undefined;
  }
  \<close>
  The increment is a post-increment: the child's id uses the count before it, and the
  object in the slot keeps the count after it.
\<close>

definition setHydrateContext :: "hctx option \<Rightarrow> rstate \<Rightarrow> rstate" where
  "setHydrateContext c s = s\<lparr>shared_context := c\<rparr>"

definition child_of :: "hctx \<Rightarrow> hctx" where
  "child_of c = c\<lparr>hc_id := hc_id c @ string_of_nat (hc_count c) @ ''.'', hc_count := 0\<rparr>"

definition nextHydrateContext :: "rstate \<Rightarrow> hctx option \<times> rstate" where
  "nextHydrateContext s =
     (case shared_context s of
        Some c \<Rightarrow>
          (Some (child_of c),
           s\<lparr>shared_context := Some (c\<lparr>hc_count := hc_count c + 1\<rparr>)\<rparr>)
      | None \<Rightarrow> (None, s))"

text \<open>
  \<^verbatim>\<open>
  export function createComponent<T>(Comp: (props: T) => JSX.Element, props: PossiblyWrapped<T>) {
    if (sharedConfig.context) {
      const c = sharedConfig.context;
      setHydrateContext(nextHydrateContext());
      const r = Comp(props as T);
      setHydrateContext(c);
      return r;
    }
    return Comp(props as T);
  }
  \<close>
  \<open>Comp\<close> stands for the call \<^verbatim>\<open>Comp(props)\<close>. The constant \<^verbatim>\<open>c\<close> is the object of the slot,
  read here after \<^verbatim>\<open>nextHydrateContext\<close> has advanced its count. There is no
  \<^verbatim>\<open>try\<close>: when the call throws, the second \<^verbatim>\<open>setHydrateContext\<close> does not run.
\<close>

definition createComponent :: "node comp \<Rightarrow> node comp" where
  "createComponent Comp s =
     (case shared_context s of
        Some _ \<Rightarrow>
          (let (n, s1) = nextHydrateContext s;
               c = shared_context s1;
               (r, s2) = Comp (setHydrateContext n s1)
           in case r of
                Inl e \<Rightarrow> (Inl e, s2)
              | Inr v \<Rightarrow> (Inr v, setHydrateContext c s2))
      | None \<Rightarrow> Comp s)"

subsection \<open>The driver's callback\<close>

text \<open>
  \<^verbatim>\<open>
  function getCallback(key: string) {
    registry.add(key);
    return (value: string) => {
      if (value) cache[key] = value;
      registry.delete(key);
      if (!registry.size)
        queueMicrotask(() => { ...substitution pass... });
    };
  }
  \<close>
  \<open>getCallback\<close> is the call itself, \<open>done_cb key v\<close> a call of the function it returned;
  \<open>v\<close> is \<open>None\<close> when that function is called without argument. An empty string is
  falsy and is not cached.
\<close>

definition getCallback :: "string \<Rightarrow> rstate \<Rightarrow> rstate" where
  "getCallback key s = s\<lparr>registry := insert key (registry s)\<rparr>"

definition done_cb :: "string \<Rightarrow> string option \<Rightarrow> rstate \<Rightarrow> rstate" where
  "done_cb key v s =
     (let s1 = (case v of Some x \<Rightarrow> if x \<noteq> [] then s\<lparr>dcache := (dcache s)(key \<mapsto> x)\<rparr> else s
                | None \<Rightarrow> s);
          s2 = s1\<lparr>registry := registry s1 - {key}, trace := trace s1 @ [Done key v]\<rparr>
      in if registry s2 = {} then s2\<lparr>microtasks := microtasks s2 + 1\<rparr> else s2)"

subsection \<open>Suspense\<close>

text \<open>
  Modelled from the spec: \<^verbatim>\<open>createContext\<close>, \<^verbatim>\<open>useContext\<close>, \<^verbatim>\<open>runWithOwner\<close>,
  \<^verbatim>\<open>lookup\<close> and \<^verbatim>\<open>Owner\<close> are imported from \<^verbatim>\<open>./reactive\<close>, which is not among the files.
  The specification says that a read finds the nearest enclosing boundary by ambient lookup
  (section 4.2) and that the driver installs a callback provider in the ambient context, to
  which a boundary that signals completion is routed (section 4.5). So
  \<^verbatim>\<open>useContext(SuspenseContext)\<close> returns the value of the nearest enclosing provider,
  \<^verbatim>\<open>SuspenseContext.Provider\<close> evaluates its children with its value as that one and puts
  the former one back, and \<^verbatim>\<open>lookup(Owner, SUSPENSE_GLOBAL)\<close> finds \<^verbatim>\<open>getCallback\<close> once a
  driver has installed it.
\<close>

definition useContext :: "rstate \<Rightarrow> string option" where
  "useContext s = provided s"

definition Provider :: "string \<Rightarrow> node comp \<Rightarrow> node comp" where
  "Provider b ch s = (let (r, s1) = ch (s\<lparr>provided := Some b\<rparr>) in (r, s1\<lparr>provided := provided s\<rparr>))"

definition lookup_callback :: "rstate \<Rightarrow> bool" where
  "lookup_callback s = installed s"

text \<open>
  \<^verbatim>\<open>
  function runSuspense() {
    setHydrateContext({ ...ctx, count: 0 });
    return runWithOwner(o, () => {
      return createComponent(SuspenseContext.Provider, {
        value,
        get children() {
          return props.children;
        }
      });
    });
  }
  \<close>
\<close>

definition runSuspense :: "props \<Rightarrow> hctx \<Rightarrow> string \<Rightarrow> node comp" where
  "runSuspense props ctx bid s =
     createComponent (Provider bid (children props))
       (setHydrateContext (Some (ctx\<lparr>hc_count := 0\<rparr>)) s)"

text \<open>
  The fan-in test \<^verbatim>\<open>value.completedCount === value.resources.size\<close> on the boundary object
  of id \<open>bid\<close>. Entries of the store are never removed by the code; \<open>None\<close> stands for a
  store that user code emptied behind its back.
\<close>

definition fan_in :: "rstate \<Rightarrow> string \<Rightarrow> bool option" where
  "fan_in s bid = (case suspense s bid of
      Some v \<Rightarrow> Some (completedCount v = length (sresources v))
    | None \<Rightarrow> None)"

text \<open>
  \<^verbatim>\<open>
  completed: () => {
    const res = runSuspense();
    if (value.completedCount === value.resources.size) {
      done(resolveSSRNode(res));
    }
  }
  \<close>
  The closure of the boundary \<open>bid\<close> that was entered with properties \<open>props\<close> in the
  context \<open>ctx\<close>.
\<close>

definition completed_cb :: "props \<Rightarrow> hctx \<Rightarrow> string \<Rightarrow> rstate \<Rightarrow> exn option \<times> rstate" where
  "completed_cb props ctx bid s =
     (case runSuspense props ctx bid s of
        (Inl e, s1) \<Rightarrow> (Some e, s1)
      | (Inr res, s1) \<Rightarrow>
          (case fan_in s1 bid of
             Some True \<Rightarrow> (None, done_cb bid (Some (resolveSSRNode res)) s1)
           | Some False \<Rightarrow> (None, s1)
           | None \<Rightarrow> (Some TypeError, s1)))"

text \<open>The placeholder \<^verbatim>\<open>`<#${id}#>`\<close> and the boundary id \<^verbatim>\<open>ctx.id + ctx.count\<close>.\<close>

definition token :: "string \<Rightarrow> string" where
  "token bid = ''<#'' @ bid @ ''#>''"

definition boundary_id :: "hctx \<Rightarrow> string" where
  "boundary_id ctx = hc_id ctx @ string_of_nat (hc_count ctx)"

text \<open>
  \<^verbatim>\<open>
  const done = ctx.async ? lookup(Owner, SUSPENSE_GLOBAL)(id) : () => {};
  const o = Owner!;
  const value: SuspenseContextValue = ctx.suspense[id] || (ctx.suspense[id] = {
    completedCount: 0,
    resources: new Set<string>(),
    completed: () => { ... }
  });
  \<close>
  Obtaining the callback registers the id with the driver; the boundary object is reused
  when the store has one for the id.
\<close>

definition enter_boundary :: "string \<Rightarrow> rstate \<Rightarrow> rstate" where
  "enter_boundary bid s =
     (let s1 = getCallback bid s
      in case suspense s1 bid of
           Some _ \<Rightarrow> s1
         | None \<Rightarrow> s1\<lparr>suspense := (suspense s1)(bid \<mapsto> \<lparr>completedCount = 0, sresources = []\<rparr>)\<rparr>)"

text \<open>
  \<^verbatim>\<open>
  export function Suspense(props: { fallback: string; children: string }) {
    const ctx = sharedConfig.context!;
    // TODO: look at not always going to fallback
    if (ctx.streaming) createComponent(() => props.children, {});
    if (!ctx.async) return props.fallback;

    const id = ctx.id + ctx.count;
    ...
    const res = runSuspense();
    if (value.completedCount === value.resources.size) {
      done();
      return res;
    }
    return sharedConfig.context!.async ? { t: `<#${id}#>` } : props.fallback;
  }
  \<close>
  \<open>ctx0\<close> is the object of the slot on entry. In streaming mode \<^verbatim>\<open>createComponent\<close>
  advances its count in place before the id is computed, so \<open>ctx\<close> is that object as the
  later lines see it.
\<close>

definition Suspense :: "props \<Rightarrow> node comp" where
  "Suspense props s =
     (case shared_context s of
        None \<Rightarrow> (Inl TypeError, s)
      | Some ctx0 \<Rightarrow>
          (case (if hc_streaming ctx0 then createComponent (children props) s else (Inr Nullish, s)) of
             (Inl e, s1) \<Rightarrow> (Inl e, s1)
           | (Inr _, s1) \<Rightarrow>
               (let ctx = (if hc_streaming ctx0 then ctx0\<lparr>hc_count := hc_count ctx0 + 1\<rparr> else ctx0) in
                if \<not> hc_async ctx then (Inr (fallback props), s1)
                else
                  (let bid = boundary_id ctx in
                   if \<not> lookup_callback s1 then (Inl TypeError, s1)
                   else
                     (case runSuspense props ctx bid (enter_boundary bid s1) of
                        (Inl e, s4) \<Rightarrow> (Inl e, s4)
                      | (Inr res, s4) \<Rightarrow>
                          (case fan_in s4 bid of
                             Some True \<Rightarrow> (Inr res, done_cb bid None s4)
                           | Some False \<Rightarrow>
                               (case shared_context s4 of
                                  Some c \<Rightarrow>
                                    (Inr (if hc_async c then Obj (Str (token bid)) else fallback props), s4)
                                | None \<Rightarrow> (Inl TypeError, s4))
                           | None \<Rightarrow> (Inl TypeError, s4)))))))"

subsection \<open>Resources\<close>

text \<open>
  What a producer returns: an object with a \<^verbatim>\<open>then\<close> property (a promise, named by a
  number), an object without one, or a primitive, on which \<^verbatim>\<open>"then" in p\<close> throws. What
  \<^verbatim>\<open>load\<close> returns: the do-nothing thenable, the producer's promise, or a promise resolved
  with the producer's value.
\<close>

datatype produced = Thenable nat | Plain node | Primitive node

datatype loaded = Noop | Given nat | Immediate node

text \<open>
  \<^verbatim>\<open>
  const contexts = new Set<SuspenseContextType>();
  const id = sharedConfig.context!.id + sharedConfig.context!.count++;
  ...
  read.loading = false;
  \<close>
  The result is the handle of the new instance.
\<close>

definition createResource :: "node \<Rightarrow> nat comp" where
  "createResource v s =
     (case shared_context s of
        None \<Rightarrow> (Inl TypeError, s)
      | Some c \<Rightarrow>
          (let h = allocated s;
               r = \<lparr>r_id = hc_id c @ string_of_nat (hc_count c), r_value = v,
                    r_loading = False, r_contexts = []\<rparr>
           in (Inr h, s\<lparr>shared_context := Some (c\<lparr>hc_count := hc_count c + 1\<rparr>),
                         rinsts := (rinsts s)(h \<mapsto> r), allocated := h + 1\<rparr>)))"

text \<open>\<^verbatim>\<open>ctx.resources.add(id)\<close> on the boundary object \<open>b\<close>.\<close>

definition register :: "string \<Rightarrow> string \<Rightarrow> rstate \<Rightarrow> rstate" where
  "register b i s =
     (case suspense s b of
        Some v \<Rightarrow> s\<lparr>suspense := (suspense s)(b \<mapsto> v\<lparr>sresources := set_add i (sresources v)\<rparr>)\<rparr>
      | None \<Rightarrow> s)"

text \<open>
  \<^verbatim>\<open>
  const read = () => {
    const resolved = sharedConfig.context!.async && id in sharedConfig.context!.resources;
    if (sharedConfig.context!.async && !resolved) {
      const ctx = useContext(SuspenseContext);
      if (ctx) {
        ctx.resources.add(id);
        contexts.add(ctx);
      }
    }
    return resolved ? sharedConfig.context!.resources[id] : value;
  };
  \<close>
  An id is made of what the root id holds, digits and dots, so \<^verbatim>\<open>id in resources\<close> never
  finds a property the store inherits: it holds exactly when the store has an entry.
\<close>

definition read :: "nat \<Rightarrow> node comp" where
  "read h s =
     (case (rinsts s h, shared_context s) of
        (Some r, Some c) \<Rightarrow>
          (let resolved = (hc_async c \<and> resources s (r_id r) \<noteq> None);
               s1 = (if hc_async c \<and> \<not> resolved then
                       (case useContext s of
                          Some b \<Rightarrow> (register b (r_id r) s)
                                      \<lparr>rinsts := (rinsts s)(h \<mapsto> r\<lparr>r_contexts := set_add b (r_contexts r)\<rparr>)\<rparr>
                        | None \<Rightarrow> s)
                     else s)
           in (Inr (if resolved then (case resources s (r_id r) of Some x \<Rightarrow> x | None \<Rightarrow> Nullish)
                    else r_value r), s1))
      | _ \<Rightarrow> (Inl TypeError, s))"

text \<open>The assignment to the closure variable \<^verbatim>\<open>value\<close> of instance \<open>h\<close>.\<close>

definition set_value :: "nat \<Rightarrow> node \<Rightarrow> rstate \<Rightarrow> rstate" where
  "set_value h v s =
     (case rinsts s h of
        Some r \<Rightarrow> s\<lparr>rinsts := (rinsts s)(h \<mapsto> r\<lparr>r_value := v\<rparr>)\<rparr>
      | None \<Rightarrow> s)"

text \<open>
  \<^verbatim>\<open>
  function load(fn: () => Promise<T> | T) {
    const ctx = sharedConfig.context!;
    if (!ctx.async && !ctx.streaming) return { then() {} };
    if (ctx.resources && id in ctx.resources) {
      value = ctx.resources[id];
      return { then() {} };
    }
    read.loading = true;
    const p = fn();
    if ("then" in p) {
      if (ctx.writeResource) {
        ctx.writeResource(id, p);
        return p;
      }
      p.then(res => { ... });
      return p;
    }
    return Promise.resolve((value = p));
  }
  \<close>
  The flag is set before the producer runs. The reaction passed to \<^verbatim>\<open>p.then\<close> is
  \<open>load_then\<close> below; \<open>load\<close> records that it is attached.
\<close>

definition load :: "nat \<Rightarrow> produced comp \<Rightarrow> loaded comp" where
  "load h fn s =
     (case (rinsts s h, shared_context s) of
        (Some r, Some ctx) \<Rightarrow>
          if \<not> hc_async ctx \<and> \<not> hc_streaming ctx then (Inr Noop, s)
          else
            (case resources s (r_id r) of
               Some v \<Rightarrow> (Inr Noop, set_value h v s)
             | None \<Rightarrow>
                 (case fn (s\<lparr>rinsts := (rinsts s)(h \<mapsto> r\<lparr>r_loading := True\<rparr>)\<rparr>) of
                    (Inl e, s1) \<Rightarrow> (Inl e, s1)
                  | (Inr (Primitive v), s1) \<Rightarrow> (Inl TypeError, s1)
                  | (Inr (Thenable p), s1) \<Rightarrow>
                      if hc_writeResource ctx
                      then (Inr (Given p), s1\<lparr>written := written s1 @ [(r_id r, p)]\<rparr>)
                      else (Inr (Given p), s1\<lparr>handlers := handlers s1 @ [(p, h)]\<rparr>)
                  | (Inr (Plain v), s1) \<Rightarrow> (Inr (Immediate v), set_value h v s1)))
      | _ \<Rightarrow> (Inl TypeError, s))"

text \<open>
  \<^verbatim>\<open>
  for (const c of contexts) {
    if (++c.completedCount === c.resources.size) c.completed();
  }
  \<close>
  \<open>bump\<close> is one turn of the loop body, \<open>notify\<close> the loop. The call of \<^verbatim>\<open>completed\<close> is
  recorded in the trace where it is made. An exception thrown by \<^verbatim>\<open>completed\<close> ends the loop.
\<close>

definition bump :: "callbacks \<Rightarrow> string \<Rightarrow> rstate \<Rightarrow> exn option \<times> rstate" where
  "bump cbs c s =
     (case suspense s c of
        Some v \<Rightarrow>
          (let v' = v\<lparr>completedCount := completedCount v + 1\<rparr>;
               s1 = s\<lparr>suspense := (suspense s)(c \<mapsto> v')\<rparr>
           in if completedCount v' = length (sresources v')
              then cbs c (s1\<lparr>trace := trace s1 @ [Completed c]\<rparr>)
              else (None, s1))
      | None \<Rightarrow> (None, s))"

fun notify :: "callbacks \<Rightarrow> string list \<Rightarrow> rstate \<Rightarrow> exn option \<times> rstate" where
  "notify cbs [] s = (None, s)"
| "notify cbs (c # cs) s =
     (case bump cbs c s of
        (Some e, s1) \<Rightarrow> (Some e, s1)
      | (None, s1) \<Rightarrow> notify cbs cs s1)"

text \<open>
  \<^verbatim>\<open>
  p.then(res => {
    ctx.resources[id] = res;
    for (const c of contexts) {
      if (++c.completedCount === c.resources.size) c.completed();
    }
    contexts.clear();
    return res;
  });
  \<close>
  The reaction of instance \<open>h\<close>, run when its promise is fulfilled with \<open>res\<close>.
\<close>

definition clear_contexts :: "nat \<Rightarrow> rstate \<Rightarrow> rstate" where
  "clear_contexts h s =
     (case rinsts s h of
        Some r \<Rightarrow> s\<lparr>rinsts := (rinsts s)(h \<mapsto> r\<lparr>r_contexts := []\<rparr>)\<rparr>
      | None \<Rightarrow> s)"

definition load_then :: "callbacks \<Rightarrow> nat \<Rightarrow> node \<Rightarrow> rstate \<Rightarrow> exn option \<times> rstate" where
  "load_then cbs h res s =
     (case rinsts s h of
        Some r \<Rightarrow>
          (case notify cbs (r_contexts r) (s\<lparr>resources := (resources s)(r_id r \<mapsto> res)\<rparr>) of
             (Some e, s1) \<Rightarrow> (Some e, s1)
           | (None, s1) \<Rightarrow> (None, clear_contexts h s1))
      | None \<Rightarrow> (None, s))"


subsection \<open>Lazy components\<close>

text \<open>
  \<^verbatim>\<open>
  export function lazy(fn: () => Promise<{ default: any }>): (props: any) => string {
    let resolved: (props: any) => any;
    const p = fn();
    const contexts = new Set<SuspenseContextType>();
    p.then(mod => (resolved = mod.default));
    return (props: any) => {
      const id = sharedConfig.context!.id + sharedConfig.context!.count++;
      if (resolved) return resolved(props);
      const ctx = useContext(SuspenseContext);
      if (ctx) {
        ctx.resources.add(id);
        contexts.add(ctx);
      }
      p.then(() => {
        for (const c of contexts) {
          if (++c.completedCount === c.resources.size) c.completed();
        }
        contexts.clear();
      });
      return "";
    };
  }
  \<close>
  \<open>lazy\<close> creates the instance, \<open>lazy_call h Comp\<close> is a call of the returned component
  (\<open>Comp\<close> stands for \<^verbatim>\<open>resolved(props)\<close>), \<open>lazy_loaded\<close> the first reaction and
  \<open>lazy_then\<close> a reaction attached by a call.
\<close>

definition lazy :: "rstate \<Rightarrow> nat \<times> rstate" where
  "lazy s = (let h = allocated s in
     (h, s\<lparr>linsts := (linsts s)(h \<mapsto> \<lparr>l_resolved = False, l_contexts = []\<rparr>), allocated := h + 1\<rparr>))"

definition lazy_call :: "nat \<Rightarrow> node comp \<Rightarrow> node comp" where
  "lazy_call h Comp s =
     (case (linsts s h, shared_context s) of
        (Some l, Some c) \<Rightarrow>
          (let i = hc_id c @ string_of_nat (hc_count c);
               s1 = s\<lparr>shared_context := Some (c\<lparr>hc_count := hc_count c + 1\<rparr>)\<rparr>
           in if l_resolved l then Comp s1
              else
                (let s2 = (case useContext s1 of
                             Some b \<Rightarrow> (register b i s1)
                                         \<lparr>linsts := (linsts s1)(h \<mapsto> l\<lparr>l_contexts := set_add b (l_contexts l)\<rparr>)\<rparr>
                           | None \<Rightarrow> s1)
                 in (Inr (Str []), s2\<lparr>lhandlers := lhandlers s2 @ [h]\<rparr>)))
      | _ \<Rightarrow> (Inl TypeError, s))"

definition lazy_loaded :: "nat \<Rightarrow> rstate \<Rightarrow> rstate" where
  "lazy_loaded h s =
     (case linsts s h of
        Some l \<Rightarrow> s\<lparr>linsts := (linsts s)(h \<mapsto> l\<lparr>l_resolved := True\<rparr>)\<rparr>
      | None \<Rightarrow> s)"

definition lazy_then :: "callbacks \<Rightarrow> nat \<Rightarrow> rstate \<Rightarrow> exn option \<times> rstate" where
  "lazy_then cbs h s =
     (case linsts s h of
        Some l \<Rightarrow>
          (case notify cbs (l_contexts l) s of
             (Some e, s1) \<Rightarrow> (Some e, s1)
           | (None, s1) \<Rightarrow>
               (None, (case linsts s1 h of
                         Some l1 \<Rightarrow> s1\<lparr>linsts := (linsts s1)(h \<mapsto> l1\<lparr>l_contexts := []\<rparr>)\<rparr>
                       | None \<Rightarrow> s1)))
      | None \<Rightarrow> (None, s))"

subsection \<open>The driver\<close>

text \<open>
  Modelled from the spec: \<^verbatim>\<open>createMemo\<close> is imported from \<^verbatim>\<open>./reactive\<close>, which is not among
  the files. The specification says that the driver runs the thunk once (section 4.5); so
  the memo runs its function once, at once, and the getter it returns (\<^verbatim>\<open>res\<close>) yields
  the value of that run, kept in \<open>memo\<close>.
\<close>

definition createMemo :: "node comp \<Rightarrow> node comp" where
  "createMemo fn s =
     (case fn s of
        (Inl e, s1) \<Rightarrow> (Inl e, s1)
      | (Inr v, s1) \<Rightarrow> (Inr v, s1\<lparr>memo := Some v\<rparr>))"

text \<open>Resolving a promise that is already settled does nothing.\<close>

definition resolve :: "node \<Rightarrow> rstate \<Rightarrow> rstate" where
  "resolve v s = (if promise s = Pending then s\<lparr>promise := Resolved v\<rparr> else s)"

text \<open>
  \<^verbatim>\<open>
  export function awaitSuspense(fn: () => any) {
    return () =>
      new Promise(resolve => {
        const registry = new Set<string>();
        const cache: Record<string, string> = Object.create(null);
        const res = createMemo(() => {
          Owner!.context = { [SUSPENSE_GLOBAL]: getCallback };
          return fn();
        });
        if (!registry.size) resolve(res());
        function getCallback(key: string) { ... }
      });
  }
  \<close>
  \<open>awaitSuspense fn\<close> is the executor of the promise, that is everything that happens in
  the turn in which the returned function is called. The function passed to
  \<^verbatim>\<open>createMemo\<close> installs the callback provider and runs the thunk. An exception of the
  executor rejects the promise.
\<close>

definition awaitSuspense :: "node comp \<Rightarrow> rstate \<Rightarrow> rstate" where
  "awaitSuspense fn s =
     (case createMemo (\<lambda>t. fn (t\<lparr>installed := True\<rparr>))
             (s\<lparr>registry := {}, dcache := Map.empty, memo := None, promise := Pending\<rparr>) of
        (Inl e, s1) \<Rightarrow> (if promise s1 = Pending then s1\<lparr>promise := Rejected e\<rparr> else s1)
      | (Inr v, s1) \<Rightarrow> (if registry s1 = {} then resolve v s1 else s1))"

text \<open>
  \<^verbatim>\<open>
  queueMicrotask(() => {
    let source = resolveSSRNode(res());
    let final = "";
    let match: any;
    while (...) { ... }
    resolve(final + source);
  });
  \<close>
  The queued pass; \<open>None\<close> when its loop never leaves.
\<close>

definition substitution_pass :: "rstate \<Rightarrow> rstate option" where
  "substitution_pass s =
     (case memo s of
        None \<Rightarrow> Some s
      | Some v \<Rightarrow>
          (case subst_loop (dcache s) [] (resolveSSRNode v) of
             None \<Rightarrow> None
           | Some out \<Rightarrow> Some (resolve (Str out) s)))"

section \<open>Scenarios\<close>

text \<open>
  Sequencing of user code, and the state in which a render starts: nothing allocated, no
  driver installed.
\<close>

definition bind_c :: "'a comp \<Rightarrow> ('a \<Rightarrow> 'b comp) \<Rightarrow> 'b comp" where
  "bind_c m f s = (case m s of (Inl e, s1) \<Rightarrow> (Inl e, s1) | (Inr v, s1) \<Rightarrow> f v s1)"

definition return_c :: "'a \<Rightarrow> 'a comp" where
  "return_c v s = (Inr v, s)"

definition throw_c :: "exn \<Rightarrow> 'a comp" where
  "throw_c e s = (Inl e, s)"

definition init_state :: "hctx \<Rightarrow> rstate" where
  "init_state c = \<lparr>shared_context = Some c, resources = Map.empty, suspense = Map.empty,
     provided = None, rinsts = Map.empty, linsts = Map.empty, allocated = 0, handlers = [],
     lhandlers = [], written = [], installed = False, registry = {}, dcache = Map.empty,
     microtasks = 0, memo = None, promise = Pending, trace = []\<rparr>"

text \<open>Root contexts: asynchronous, streaming only, and neither.\<close>

definition root_ctx :: hctx where
  "root_ctx = \<lparr>hc_id = [], hc_count = 0, hc_async = True, hc_streaming = False,
     hc_writeResource = False\<rparr>"

definition stream_ctx :: hctx where
  "stream_ctx = \<lparr>hc_id = [], hc_count = 0, hc_async = False, hc_streaming = True,
     hc_writeResource = False\<rparr>"

definition plain_ctx :: hctx where
  "plain_ctx = \<lparr>hc_id = [], hc_count = 0, hc_async = False, hc_streaming = False,
     hc_writeResource = False\<rparr>"

text \<open>\<open>spawn k\<close>: \<open>k\<close> calls of \<^verbatim>\<open>nextHydrateContext\<close> in a row, as \<open>k\<close> sibling components make them.\<close>

fun spawn :: "nat \<Rightarrow> rstate \<Rightarrow> hctx list \<times> rstate" where
  "spawn 0 s = ([], s)"
| "spawn (Suc k) s =
     (case nextHydrateContext s of
        (Some ch, s1) \<Rightarrow> (let (chs, s2) = spawn k s1 in (ch # chs, s2))
      | (None, s1) \<Rightarrow> ([], s1))"

text \<open>A producer whose promise is still pending, and callbacks that do nothing.\<close>

definition pendingP :: "nat \<Rightarrow> produced comp" where
  "pendingP p = return_c (Thenable p)"


text \<open>A boundary whose children create a resource: their evaluation shows in the state.\<close>

definition probe :: props where
  "probe = \<lparr>fallback = Str ''wait'',
     children = bind_c (createResource Nullish) (\<lambda>_. return_c (Str ''child''))\<rparr>"

text \<open>
  A boundary that reads one resource; \<open>ready\<close> is the state after the resource was created
  and its load started, with a driver installed. The boundary entered there has id \<^verbatim>\<open>1\<close>.
\<close>

definition reader :: "nat \<Rightarrow> props" where
  "reader h = \<lparr>fallback = Str ''wait'', children = read h\<rparr>"

definition ready :: rstate where
  "ready = snd (bind_c (createResource Nullish) (\<lambda>h. load h (pendingP 0))
                  ((init_state root_ctx)\<lparr>installed := True\<rparr>))"



text \<open>
  A boundary (id \<^verbatim>\<open>1\<close>) that reads a pending resource and holds a second boundary (id
  \<^verbatim>\<open>0.0.0\<close>) with nothing to wait for:
  \<^verbatim>\<open>
  const [read, load] = createResource();
  load(() => pending);
  return Suspense({ fallback: "f1", get children() {
    return [read(), createComponent(Suspense, { fallback: "f2", children: "I" })];
  }});
  \<close>
  \<open>nested_callbacks\<close> holds the \<^verbatim>\<open>completed\<close> closures the two boundaries stored.
\<close>

definition inner :: props where
  "inner = \<lparr>fallback = Str ''f2'', children = return_c (Str ''I'')\<rparr>"

definition outer :: "nat \<Rightarrow> props" where
  "outer h = \<lparr>fallback = Str ''f1'', children =
      bind_c (read h) (\<lambda>v. bind_c (createComponent (Suspense inner)) (\<lambda>w. return_c (Arr [v, w])))\<rparr>"

definition nested_app :: "node comp" where
  "nested_app = bind_c (createResource Nullish)
     (\<lambda>h. bind_c (load h (pendingP 0)) (\<lambda>_. Suspense (outer h)))"

definition nested_callbacks :: callbacks where
  "nested_callbacks b =
     (if b = ''1'' then completed_cb (outer 0) (root_ctx\<lparr>hc_count := 1\<rparr>) ''1''
      else if b = ''0.0.0'' then completed_cb inner (root_ctx\<lparr>hc_id := ''0.0.''\<rparr>) ''0.0.0''
      else (\<lambda>s. (None, s)))"





text \<open>
  A component that returns the id of the context it runs under,
  \<^verbatim>\<open>() => sharedConfig.context!.id\<close>; the children of a component rendered one after the
  other, each through \<^verbatim>\<open>createComponent\<close>, as in
  \<^verbatim>\<open>[createComponent(A, {}), createComponent(B, {})]\<close>; and the state in which a render
  starts under an installed driver.
\<close>

definition whoami :: "node comp" where
  "whoami s = (case shared_context s of
      Some c \<Rightarrow> (Inr (Str (hc_id c)), s)
    | None \<Rightarrow> (Inl TypeError, s))"

fun render_each :: "node comp list \<Rightarrow> node list comp" where
  "render_each [] s = (Inr [], s)"
| "render_each (f # fs) s =
     (case createComponent f s of
        (Inl e, s1) \<Rightarrow> (Inl e, s1)
      | (Inr v, s1) \<Rightarrow>
          (case render_each fs s1 of
             (Inl e, s2) \<Rightarrow> (Inl e, s2)
           | (Inr vs, s2) \<Rightarrow> (Inr (v # vs), s2)))"

definition driven :: rstate where
  "driven = (init_state root_ctx)\<lparr>installed := True\<rparr>"

text \<open>
  Four positions under the root, the third a boundary that is called directly:
  \<^verbatim>\<open>
  const a = createComponent(whoami, {});
  const b = createComponent(whoami, {});
  const c = Suspense({ fallback: "f", get children() { return whoami(); } });
  const d = createComponent(whoami, {});
  return [a, b, c, d];
  \<close>
\<close>

definition named :: props where
  "named = \<lparr>fallback = Str ''f'', children = whoami\<rparr>"

definition mixed_siblings :: "node comp" where
  "mixed_siblings =
     bind_c (createComponent whoami) (\<lambda>a.
     bind_c (createComponent whoami) (\<lambda>b.
     bind_c (Suspense named) (\<lambda>c.
     bind_c (createComponent whoami) (\<lambda>d.
     return_c (Arr [a, b, c, d])))))"


definition twice :: "nat \<Rightarrow> props" where
  "twice h = \<lparr>fallback = Str ''wait'', children =
      bind_c (lazy_call h (return_c (Str ''L''))) (\<lambda>a.
      bind_c (lazy_call h (return_c (Str ''L''))) (\<lambda>b. return_c (Arr [a, b])))\<rparr>"

definition lazy_app :: "(nat \<Rightarrow> props) \<Rightarrow> node comp" where
  "lazy_app p s = (let (h, s1) = lazy s in Suspense (p h) s1)"

definition lazy_callbacks :: "(nat \<Rightarrow> props) \<Rightarrow> callbacks" where
  "lazy_callbacks p b =
     (if b = ''0'' then completed_cb (p 0) root_ctx ''0'' else (\<lambda>s. (None, s)))"

definition lazy_waiting :: "(nat \<Rightarrow> props) \<Rightarrow> rstate" where
  "lazy_waiting p = lazy_loaded 0 (awaitSuspense (lazy_app p) (init_state root_ctx))"

text \<open>A thunk that renders without any boundary and returns a template object.\<close>

definition static_page :: "node comp" where
  "static_page = return_c (Obj (Str ''<p>hi</p>''))"

subsection \<open>Vocabulary of the state claims\<close>

text \<open>Identifiers made of decimal digits and dots, as the token pattern accepts them.\<close>

definition path_id :: "string \<Rightarrow> bool" where
  "path_id i = (\<forall>c\<in>set i. is_idc c)"

text \<open>
  \<open>loading_of s h\<close> is the flag \<^verbatim>\<open>read.loading\<close> of instance \<open>h\<close>; \<open>flags_kept s s'\<close> says
  that no flag that is set in \<open>s\<close> is cleared in \<open>s'\<close>.
\<close>

definition loading_of :: "rstate \<Rightarrow> nat \<Rightarrow> bool" where
  "loading_of s h = (case rinsts s h of Some r \<Rightarrow> r_loading r | None \<Rightarrow> False)"

definition flags_kept :: "rstate \<Rightarrow> rstate \<Rightarrow> bool" where
  "flags_kept s s' = (\<forall>h. loading_of s h \<longrightarrow> loading_of s' h)"

text \<open>
  \<open>fires s c\<close>: in the state \<open>s\<close> the increment of the loop body makes the count of the
  boundary \<open>c\<close> equal to the size of its \<^verbatim>\<open>resources\<close>. \<open>count_up c\<close> is that increment
  alone, \<open>counted cs\<close> the increments for the boundaries \<open>cs\<close>, in order.
\<close>

definition fires :: "rstate \<Rightarrow> string \<Rightarrow> bool" where
  "fires s c = (case suspense s c of
      Some v \<Rightarrow> completedCount v + 1 = length (sresources v)
    | None \<Rightarrow> False)"

definition count_up :: "string \<Rightarrow> rstate \<Rightarrow> rstate" where
  "count_up c s = (case suspense s c of
      Some v \<Rightarrow> s\<lparr>suspense := (suspense s)(c \<mapsto> v\<lparr>completedCount := completedCount v + 1\<rparr>)\<rparr>
    | None \<Rightarrow> s)"

fun counted :: "string list \<Rightarrow> rstate \<Rightarrow> rstate" where
  "counted [] s = s"
| "counted (c # cs) s = counted cs (count_up c s)"

section \<open>Facts and claims\<close>

subsection \<open>Facts about the matcher\<close>

lemma is_idc_simps [simp]: "\<not> is_idc CHR ''<''" "\<not> is_idc CHR ''#''" "\<not> is_idc CHR ''>''"
  by (simp_all add: is_idc_def)

lemma match_at_decomp:
  assumes "match_at s = Some (i, r)"
  shows "s = ''<#'' @ i @ ''#>'' @ r \<and> i \<noteq> [] \<and> (\<forall>c\<in>set i. is_idc c)"
proof -
  obtain c1 c2 t where s: "s = c1 # c2 # t"
    using assms by (cases s rule: match_at.cases) auto
  from assms s have c: "c1 = CHR ''<''" "c2 = CHR ''#''"
    and i: "i = takeWhile is_idc t" "i \<noteq> []"
    and r: "take 2 (dropWhile is_idc t) = ''#>''" "r = drop 2 (dropWhile is_idc t)"
    by (auto simp: Let_def split: if_splits)
  have "dropWhile is_idc t = take 2 (dropWhile is_idc t) @ drop 2 (dropWhile is_idc t)"
    by simp
  then have "dropWhile is_idc t = ''#>'' @ r"
    unfolding r(1) r(2) [symmetric] .
  then have "takeWhile is_idc t @ dropWhile is_idc t = i @ ''#>'' @ r"
    unfolding i(1) by (rule arg_cong)
  then have t: "t = i @ ''#>'' @ r"
    unfolding takeWhile_dropWhile_id .
  have "\<forall>c\<in>set i. is_idc c"
    unfolding i(1) by (auto dest: set_takeWhileD)
  moreover have "s = ''<#'' @ i @ ''#>'' @ r"
    unfolding s c by (subst t) simp
  ultimately show ?thesis using i(2) by blast
qed

lemma match_at_token:
  assumes "i \<noteq> []" "\<forall>c\<in>set i. is_idc c"
  shows "match_at (''<#'' @ i @ ''#>'' @ r) = Some (i, r)"
proof -
  have "takeWhile is_idc (i @ ''#>'' @ r) = i" "dropWhile is_idc (i @ ''#>'' @ r) = ''#>'' @ r"
    using assms(2) by (simp_all add: takeWhile_append2 dropWhile_append2)
  with assms(1) show ?thesis by simp
qed

lemma match_at_append:
  assumes "match_at s = Some (i, r)"
  shows "match_at (s @ k) = Some (i, r @ k)"
proof -
  from match_at_decomp [OF assms]
  have s: "s = ''<#'' @ i @ ''#>'' @ r" and i: "i \<noteq> []" "\<forall>c\<in>set i. is_idc c" by auto
  have "s @ k = ''<#'' @ i @ ''#>'' @ (r @ k)" by (subst s) simp
  then show ?thesis using match_at_token [OF i] by simp
qed

lemma smatch_decomp:
  "smatch s = Some (p, i, r) \<Longrightarrow> s = p @ ''<#'' @ i @ ''#>'' @ r \<and> i \<noteq> [] \<and> (\<forall>c\<in>set i. is_idc c)"
proof (induction s arbitrary: p)
  case Nil
  then show ?case by simp
next
  case (Cons c cs)
  show ?case
  proof (cases "match_at (c # cs)")
    case None
    with Cons.prems obtain p' where p': "smatch cs = Some (p', i, r)" "p = c # p'"
      by (auto split: option.splits)
    from Cons.IH [OF p'(1)] p'(2) show ?thesis by simp
  next
    case (Some a)
    with Cons.prems have "a = (i, r)" "p = []" by (auto split: prod.splits)
    with Some match_at_decomp [of "c # cs" i r] show ?thesis by simp
  qed
qed

lemma smatch_shorter: "smatch s = Some (p, i, r) \<Longrightarrow> length r < length s"
  by (drule smatch_decomp) (auto dest: arg_cong [where f = length])

lemma match_at_None_append:
  assumes "match_at (c # cs) = None" "CHR ''<'' \<in> set cs"
  shows "match_at (c # cs @ k) = None"
proof (rule ccontr)
  assume "match_at (c # cs @ k) \<noteq> None"
  then obtain i r where m: "match_at (c # cs @ k) = Some (i, r)" by auto
  from match_at_decomp [OF m]
  have e: "c # cs @ k = ''<#'' @ i @ ''#>'' @ r" and i: "i \<noteq> []" "\<forall>c\<in>set i. is_idc c" by auto
  from assms(2) obtain d t where cs: "cs = d # t" by (cases cs) auto
  from e have c: "c = CHR ''<''" by simp
  from e cs have d: "d = CHR ''#''" and t: "t @ k = i @ ''#>'' @ r" by simp_all
  have lt: "CHR ''<'' \<in> set t" using assms(2) unfolding cs d by simp
  have idc: "is_idc x" if "x \<in> set (takeWhile is_idc t)" for x
    using that by (rule set_takeWhileD [THEN conjunct2])
  show False
  proof (cases "dropWhile is_idc t")
    case Nil
    then have "takeWhile is_idc t = t" by (simp add: takeWhile_eq_all_conv dropWhile_eq_Nil_conv)
    with idc [of "CHR ''<''"] lt show False by simp
  next
    case (Cons x xs)
    then have x: "x \<in> set t" "\<not> is_idc x"
      using set_dropWhileD [of x is_idc t] hd_dropWhile [of is_idc t] by simp_all
    have tk: "takeWhile is_idc (t @ k) = takeWhile is_idc t"
      using x by (rule takeWhile_append1)
    have dk: "dropWhile is_idc (t @ k) = dropWhile is_idc t @ k"
      using x by (rule dropWhile_append1)
    have ti: "takeWhile is_idc (t @ k) = i" "dropWhile is_idc (t @ k) = ''#>'' @ r"
      unfolding t using i(2) by (simp_all add: takeWhile_append2 dropWhile_append2)
    have ne: "takeWhile is_idc t \<noteq> []" using tk ti(1) i(1) by simp
    have "match_at (CHR ''<'' # CHR ''#'' # t) = None" using assms(1) unfolding cs c d .
    with ne have n2: "take 2 (dropWhile is_idc t) \<noteq> ''#>''"
      by (simp add: Let_def split: if_splits)
    from dk ti(2) Cons have a: "(x # xs) @ k = ''#>'' @ r" by simp
    then have x': "x = CHR ''#''" by simp
    have "xs = []"
    proof (cases xs)
      case Nil
      then show ?thesis .
    next
      case (Cons y ys)
      with a have "y = CHR ''>''" by simp
      with x' Cons \<open>dropWhile is_idc t = x # xs\<close> have "take 2 (dropWhile is_idc t) = ''#>''"
        by (simp add: numeral_2_eq_2)
      with n2 show ?thesis by simp
    qed
    with Cons x' have "dropWhile is_idc t = ''#''" by simp
    then have "takeWhile is_idc t @ ''#'' = t"
      using takeWhile_dropWhile_id [of is_idc t] by simp
    then have "set t = set (takeWhile is_idc t) \<union> {CHR ''#''}"
      using set_append [of "takeWhile is_idc t" "''#''"] by simp
    with lt have "CHR ''<'' \<in> set (takeWhile is_idc t)" by simp
    with idc [of "CHR ''<''"] show False by simp
  qed
qed

lemma smatch_has_lt: "smatch s = Some (p, i, r) \<Longrightarrow> CHR ''<'' \<in> set s"
  by (drule smatch_decomp) auto

lemma smatch_append:
  "smatch s = Some (p, i, r) \<Longrightarrow> smatch (s @ k) = Some (p, i, r @ k)"
proof (induction s arbitrary: p)
  case Nil
  then show ?case by simp
next
  case (Cons c cs)
  show ?case
  proof (cases "match_at (c # cs)")
    case None
    with Cons.prems obtain p' where p': "smatch cs = Some (p', i, r)" "p = c # p'"
      by (auto split: option.splits)
    have "match_at (c # cs @ k) = None"
      using None smatch_has_lt [OF p'(1)] by (rule match_at_None_append)
    with Cons.IH [OF p'(1)] p'(2) show ?thesis by simp
  next
    case (Some a)
    with Cons.prems have a: "a = (i, r)" "p = []" by (auto split: prod.splits)
    from Some a match_at_append [of "c # cs" i r k] show ?thesis by simp
  qed
qed

subsection \<open>Facts about the loop\<close>

lemma nolt_append: "nolt a \<Longrightarrow> nolt b \<Longrightarrow> nolt (a @ b)"
proof (induction a rule: nolt.induct)
  case (2 c)
  then show ?case by (cases b) auto
qed auto

lemma nolt_smatch_append:
  "nolt s \<Longrightarrow> smatch (s @ k) = (case smatch k of None \<Rightarrow> None | Some (p, i, r) \<Rightarrow> Some (s @ p, i, r))"
proof (induction s rule: nolt.induct)
  case 1
  then show ?case by (simp split: option.splits)
next
  case (2 c)
  then have "match_at (c # k) = None" by (cases k) auto
  then show ?case by (simp split: option.splits)
next
  case (3 c d cs)
  then have "match_at (c # d # cs @ k) = None" by auto
  with 3 show ?case by (simp split: option.splits)
qed

lemma nolt_smatch: "nolt s \<Longrightarrow> smatch s = None"
  using nolt_smatch_append [of s "[]"] by simp

lemma subst_loop_text:
  assumes "nolt s"
  shows "subst_loop cache final (s @ k) = subst_loop cache (final @ s) k"
  by (subst subst_loop.simps, subst (2) subst_loop.simps)
     (simp add: nolt_smatch_append [OF assms] split: option.splits)

lemma plain_text_None: "smatch s = None \<Longrightarrow> plain_text s \<Longrightarrow> nolt s"
  by (erule plain_text.cases) simp_all

lemma plain_text_Some: "smatch s = Some (p, i, r) \<Longrightarrow> plain_text s \<Longrightarrow> nolt p \<and> plain_text r"
  by (erule plain_text.cases) simp_all

lemma expands_loop:
  assumes "expands cache s out" "plain_text s" "\<forall>f\<in>ran cache. plain_text f"
  shows "nolt out \<and> (\<forall>final k. subst_loop cache final (s @ k) = subst_loop cache (final @ out) k)"
  using assms
proof (induction rule: expands.induct)
  case (expands_text s)
  then have "nolt s" by (simp add: plain_text_None)
  then show ?case by (simp add: subst_loop_text)
next
  case (expands_token s p i r f e1 e2)
  from expands_token.prems(1) expands_token.hyps(1)
  have p: "nolt p" and r: "plain_text r" by (auto dest: plain_text_Some)
  have f: "plain_text f" using expands_token.prems(2) expands_token.hyps(2) by (auto simp: ran_def)
  from expands_token.IH(1) [OF f expands_token.prems(2)]
  have e1: "nolt e1" and l1: "\<And>final k. subst_loop cache final (f @ k) = subst_loop cache (final @ e1) k"
    by auto
  from expands_token.IH(2) [OF r expands_token.prems(2)]
  have e2: "nolt e2" and l2: "\<And>final k. subst_loop cache final (r @ k) = subst_loop cache (final @ e2) k"
    by auto
  have "nolt (p @ e1 @ e2)" using p e1 e2 by (simp add: nolt_append)
  moreover have "subst_loop cache final (s @ k) = subst_loop cache (final @ p @ e1 @ e2) k" for final k
  proof -
    have "smatch (s @ k) = Some (p, i, r @ k)"
      using expands_token.hyps(1) by (rule smatch_append)
    then have "subst_loop cache final (s @ k) = subst_loop cache (final @ p) (f @ r @ k)"
      by (subst subst_loop.simps) (simp add: cache_get_def expands_token.hyps(2))
    also have "\<dots> = subst_loop cache ((final @ p) @ e1) (r @ k)" by (rule l1)
    also have "\<dots> = subst_loop cache (((final @ p) @ e1) @ e2) k" by (rule l2)
    finally show ?thesis by simp
  qed
  ultimately show ?case by blast
qed

lemma expands_unique: "expands cache s a \<Longrightarrow> expands cache s b \<Longrightarrow> a = b"
proof (induction arbitrary: b rule: expands.induct)
  case (expands_text s)
  from expands_text.prems expands_text.hyps show ?case
    by (auto elim: expands.cases)
next
  case (expands_token s p i r f e1 e2)
  from expands_token.prems expands_token.hyps(1,2) obtain e1' e2'
    where "b = p @ e1' @ e2'" "expands cache f e1'" "expands cache r e2'"
    by (auto elim: expands.cases)
  with expands_token.IH show ?case by auto
qed

lemma tok_ids_skip: "CHR ''<'' \<notin> set xs \<Longrightarrow> tok_ids (xs @ r) = tok_ids r"
proof (induction xs)
  case Nil
  then show ?case by simp
next
  case (Cons c xs)
  then have "match_at (c # xs @ r) = None" by (cases "xs @ r") auto
  with Cons show ?case by simp
qed

lemma tok_ids_Some: "smatch s = Some (p, i, r) \<Longrightarrow> tok_ids s = i # tok_ids r"
proof (induction s arbitrary: p)
  case Nil
  then show ?case by simp
next
  case (Cons c cs)
  show ?case
  proof (cases "match_at (c # cs)")
    case None
    with Cons.prems obtain p' where p': "smatch cs = Some (p', i, r)"
      by (auto split: option.splits)
    from Cons.IH [OF p'] None show ?thesis by simp
  next
    case (Some a)
    with Cons.prems have a: "a = (i, r)" by (auto split: prod.splits)
    from match_at_decomp [of "c # cs" i r] Some a
    have cs: "cs = (CHR ''#'' # i @ ''#'') @ CHR ''>'' # r" and i: "\<forall>c\<in>set i. is_idc c" by auto
    have "CHR ''<'' \<notin> set (CHR ''#'' # i @ ''#>'')" using i by auto
    then have "tok_ids ((CHR ''#'' # i @ ''#>'') @ r) = tok_ids r" by (rule tok_ids_skip)
    then have "tok_ids cs = tok_ids r" unfolding cs by simp
    with Some a show ?thesis by simp
  qed
qed

lemma tok_ids_None: "smatch s = None \<Longrightarrow> tok_ids s = []"
  by (induction s) (auto split: option.splits)

lemma expands_exists:
  assumes closed: "\<forall>f\<in>ran cache. set (tok_ids f) \<subseteq> dom cache"
    and rank: "nesting_ranked cache rank"
  shows "set (tok_ids s) \<subseteq> dom cache \<Longrightarrow> \<forall>j\<in>set (tok_ids s). rank j < n \<Longrightarrow> \<exists>out. expands cache s out"
proof (induction n arbitrary: s)
  case 0
  then have "tok_ids s = []" by (cases "tok_ids s") auto
  then have "smatch s = None" by (cases "smatch s") (auto dest: tok_ids_Some)
  then show ?case by (auto intro: expands_text)
next
  case (Suc n)
  from Suc.prems show ?case
  proof (induction s rule: length_induct)
    case (1 s)
    show ?case
    proof (cases "smatch s")
      case None
      then show ?thesis by (auto intro: expands_text)
    next
      case (Some a)
      then obtain p i r where m: "smatch s = Some (p, i, r)" by (cases a) auto
      then have t: "tok_ids s = i # tok_ids r" by (rule tok_ids_Some)
      with "1.prems" obtain f where f: "cache i = Some f" by auto
      have fr: "f \<in> ran cache" using f by (auto simp: ran_def)
      have "rank i < Suc n" using "1.prems"(2) t by simp
      moreover have "\<forall>j\<in>set (tok_ids f). rank j < rank i"
        using rank f unfolding nesting_ranked_def by blast
      ultimately have "\<forall>j\<in>set (tok_ids f). rank j < n" by fastforce
      moreover have "set (tok_ids f) \<subseteq> dom cache" using closed fr by blast
      ultimately obtain e1 where e1: "expands cache f e1" using Suc.IH by blast
      have "length r < length s" using m by (rule smatch_shorter)
      moreover have "set (tok_ids r) \<subseteq> dom cache" "\<forall>j\<in>set (tok_ids r). rank j < Suc n"
        using "1.prems" t by auto
      ultimately obtain e2 where e2: "expands cache r e2" using "1.IH" by blast
      from m f e1 e2 show ?thesis by (auto intro: expands_token)
    qed
  qed
qed

lemma rank_bound: "\<exists>n::nat. \<forall>j\<in>set xs. rank j < n"
proof (induction xs)
  case Nil
  then show ?case by simp
next
  case (Cons a xs)
  then obtain n where "\<forall>j\<in>set xs. rank j < n" by blast
  then have "\<forall>j\<in>set (a # xs). rank j < max n (Suc (rank a))" by auto
  then show ?case by blast
qed

subsection \<open>Claim C2: the substitution round trip\<close>

text \<open>
  Claim C2, as amended. For every root string and cache in which every token id of the root
  and of every cached fragment has a cache entry, in which the nesting of fragments is well
  founded (some rank on ids drops from a fragment's id to the ids of the tokens inside it),
  and in which the text between tokens holds no \<^verbatim>\<open><#\<close> and does not end in \<^verbatim>\<open><\<close>, the
  substitution pass returns; its result holds no token and is the left-to-right expansion of
  the root, tokens inside cached fragments expanded too.
\<close>

theorem substitution_round_trip:
  assumes "all_tokens_cached cache root"
    and "nesting_ranked cache rank"
    and "all_plain cache root"
  shows "\<exists>out. subst_loop cache [] root = Some out \<and> expands cache root out \<and> smatch out = None"
proof -
  from assms(1) have c: "\<forall>f\<in>ran cache. set (tok_ids f) \<subseteq> dom cache"
    and r: "set (tok_ids root) \<subseteq> dom cache"
    unfolding all_tokens_cached_def by simp_all
  obtain n where n: "\<forall>j\<in>set (tok_ids root). rank j < n"
    using rank_bound [of "tok_ids root" rank] ..
  have "\<exists>out. expands cache root out"
    using expands_exists [of cache rank root n] c assms(2) r n by blast
  then obtain out where out: "expands cache root out" ..
  from assms(3) have p: "plain_text root" "\<forall>f\<in>ran cache. plain_text f"
    unfolding all_plain_def by simp_all
  from expands_loop [OF out p] have no: "nolt out"
    and l: "subst_loop cache [] (root @ []) = subst_loop cache ([] @ out) []" by blast+
  have "subst_loop cache out [] = Some out" by (subst subst_loop.simps) simp
  with l have "subst_loop cache [] root = Some out" by simp
  moreover have "smatch out = None" using no by (rule nolt_smatch)
  ultimately show ?thesis using out by blast
qed

text \<open>
  Claim C2, an instance: the root \<^verbatim>\<open>a<#0#>b\<close> with the fragment \<^verbatim>\<open>X<#0.0#>Y\<close> cached for
  \<^verbatim>\<open>0\<close> and \<^verbatim>\<open>Z\<close> for \<^verbatim>\<open>0.0\<close>; the rank of an id is 3 minus its length.
\<close>

theorem substitution_round_trip_witness:
  "all_tokens_cached [''0'' \<mapsto> ''X<#0.0#>Y'', ''0.0'' \<mapsto> ''Z''] ''a<#0#>b''
   \<and> nesting_ranked [''0'' \<mapsto> ''X<#0.0#>Y'', ''0.0'' \<mapsto> ''Z''] (\<lambda>i. 3 - length i)
   \<and> all_plain [''0'' \<mapsto> ''X<#0.0#>Y'', ''0.0'' \<mapsto> ''Z''] ''a<#0#>b''
   \<and> (\<exists>out. subst_loop [''0'' \<mapsto> ''X<#0.0#>Y'', ''0.0'' \<mapsto> ''Z''] [] ''a<#0#>b'' = Some out
          \<and> expands [''0'' \<mapsto> ''X<#0.0#>Y'', ''0.0'' \<mapsto> ''Z''] ''a<#0#>b'' out \<and> smatch out = None)
   \<and> subst_loop [''0'' \<mapsto> ''X<#0.0#>Y'', ''0.0'' \<mapsto> ''Z''] [] ''a<#0#>b'' = Some ''aXZYb''"
proof -
  let ?c = "[''0'' \<mapsto> ''X<#0.0#>Y'', ''0.0'' \<mapsto> ''Z'']"
  have m: "smatch ''a<#0#>b'' = Some (''a'', ''0'', ''b'')" "smatch ''b'' = None"
    "smatch ''X<#0.0#>Y'' = Some (''X'', ''0.0'', ''Y'')" "smatch ''Y'' = None" "smatch ''Z'' = None"
    by (simp_all add: is_idc_def)
  have t: "tok_ids ''a<#0#>b'' = [''0'']" "tok_ids ''X<#0.0#>Y'' = [''0.0'']" "tok_ids ''Z'' = []"
    by (simp_all add: is_idc_def)
  have p: "plain_text ''a<#0#>b''" "plain_text ''X<#0.0#>Y''" "plain_text ''Z''"
    by (rule plain_token [OF m(1)] plain_token [OF m(3)] plain_last; simp add: m plain_last)+
  have 1: "all_tokens_cached ?c ''a<#0#>b''"
    unfolding all_tokens_cached_def by (simp add: t)
  have 2: "nesting_ranked ?c (\<lambda>i. 3 - length i)"
    unfolding nesting_ranked_def by (simp add: t)
  have 3: "all_plain ?c ''a<#0#>b''"
    unfolding all_plain_def by (simp add: p)
  have 4: "\<exists>out. subst_loop ?c [] ''a<#0#>b'' = Some out \<and> expands ?c ''a<#0#>b'' out \<and> smatch out = None"
    using 1 2 3 by (rule substitution_round_trip)
  have 5: "subst_loop ?c [] ''a<#0#>b'' = Some ''aXZYb''"
    by (simp add: subst_loop.simps cache_get_def is_idc_def)
  show ?thesis by (rule conjI [OF 1 conjI [OF 2 conjI [OF 3 conjI [OF 4 5]]]])
qed

lemma smatch_ex0: "smatch ''<#0#>'' = Some ([], ''0'', [])"
  by (simp add: is_idc_def)

lemma cyclic_never_returns:
  assumes "subst_loop cache final source = Some y"
  shows "cache = [''0'' \<mapsto> ''<#0#>''] \<longrightarrow> source \<noteq> ''<#0#>''"
  using assms
proof (rule subst_loop.raw_induct [rotated 1, where P = "\<lambda>cache final source y. cache = [''0'' \<mapsto> ''<#0#>''] \<longrightarrow> source \<noteq> ''<#0#>''"])
  fix f :: "cache \<Rightarrow> string \<Rightarrow> string \<Rightarrow> string option" and cache final source y
  assume IH: "\<And>cache final source y. f cache final source = Some y \<Longrightarrow>
      cache = [''0'' \<mapsto> ''<#0#>''] \<longrightarrow> source \<noteq> ''<#0#>''"
    and step: "(case smatch source of None \<Rightarrow> Some (final @ source)
      | Some (p, i, r) \<Rightarrow> f cache (final @ p) (cache_get cache i @ r)) = Some y"
  show "cache = [''0'' \<mapsto> ''<#0#>''] \<longrightarrow> source \<noteq> ''<#0#>''"
  proof (intro impI notI)
    assume c: "cache = [''0'' \<mapsto> ''<#0#>'']" and s: "source = ''<#0#>''"
    from step have "f cache final ''<#0#>'' = Some y"
      unfolding s smatch_ex0 c by (simp add: cache_get_def)
    from IH [OF this] c show False by simp
  qed
qed

text \<open>
  Claim C2 as stated fails: in the cache that maps id \<^verbatim>\<open>0\<close> to the fragment
  \<^verbatim>\<open><#0#>\<close> every token id has an entry, and the pass on the root \<^verbatim>\<open><#0#>\<close> never
  returns.
\<close>

theorem cyclic_cache_diverges:
  "all_tokens_cached [''0'' \<mapsto> ''<#0#>''] ''<#0#>'' \<and> subst_loop [''0'' \<mapsto> ''<#0#>''] [] ''<#0#>'' = None"
proof -
  have t: "tok_ids ''<#0#>'' = [''0'']"
    by (simp add: is_idc_def)
  have "all_tokens_cached [''0'' \<mapsto> ''<#0#>''] ''<#0#>''"
    unfolding all_tokens_cached_def by (simp add: t)
  moreover have "subst_loop [''0'' \<mapsto> ''<#0#>''] [] ''<#0#>'' = None"
  proof (cases "subst_loop [''0'' \<mapsto> ''<#0#>''] [] ''<#0#>''")
    case None
    then show ?thesis .
  next
    case (Some y)
    from cyclic_never_returns [OF this] show ?thesis by simp
  qed
  ultimately show ?thesis ..
qed

text \<open>
  Splicing can also assemble a token out of pieces. The text before a match is never
  scanned again, so here the result still holds a token although every id is cached and the
  nesting is well founded.
\<close>

lemma spliced_token_survives:
  "all_tokens_cached [''1'' \<mapsto> ''#2#>''] ''<<#1#>''
   \<and> nesting_ranked [''1'' \<mapsto> ''#2#>''] (\<lambda>_. 0)
   \<and> subst_loop [''1'' \<mapsto> ''#2#>''] [] ''<<#1#>'' = Some ''<#2#>''
   \<and> smatch ''<#2#>'' = Some ([], ''2'', [])"
proof -
  have m: "smatch ''<<#1#>'' = Some (''<'', ''1'', [])" "smatch ''#2#>'' = None"
    "smatch ''<#2#>'' = Some ([], ''2'', [])"
    by (simp_all add: is_idc_def)
  have t: "tok_ids ''<<#1#>'' = [''1'']" "tok_ids ''#2#>'' = []"
    by (simp_all add: is_idc_def)
  have "all_tokens_cached [''1'' \<mapsto> ''#2#>''] ''<<#1#>''"
    unfolding all_tokens_cached_def by (simp add: t)
  moreover have "nesting_ranked [''1'' \<mapsto> ''#2#>''] (\<lambda>_. 0)"
    unfolding nesting_ranked_def by (simp add: t)
  moreover have "subst_loop [''1'' \<mapsto> ''#2#>''] [] ''<<#1#>'' = Some ''<#2#>''"
    by (subst subst_loop.simps, simp add: cache_get_def is_idc_def,
        subst subst_loop.simps, simp add: is_idc_def)
  ultimately show ?thesis using m(3) by (intro conjI)
qed

subsection \<open>Claim C6: a token whose id was never registered\<close>

lemma nolt_undefined: "nolt ''undefined''" by simp

lemma subst_loop_terminates_uncached:
  "set (tok_ids source) \<inter> dom cache = {} \<Longrightarrow> \<exists>out. subst_loop cache final source = Some out"
proof (induction source arbitrary: final rule: length_induct)
  case (1 source)
  show ?case
  proof (cases "smatch source")
    case None
    then show ?thesis by (subst subst_loop.simps) simp
  next
    case (Some a)
    then obtain p i r where m: "smatch source = Some (p, i, r)" by (cases a) auto
    then have t: "tok_ids source = i # tok_ids r" by (rule tok_ids_Some)
    with "1.prems" have i: "cache i = None" and r: "set (tok_ids r) \<inter> dom cache = {}" by auto
    have "length r < length source" using m by (rule smatch_shorter)
    with "1.IH" r obtain out where "subst_loop cache ((final @ p) @ ''undefined'') r = Some out"
      by blast
    then have "subst_loop cache (final @ p) (''undefined'' @ r) = Some out"
      using subst_loop_text [OF nolt_undefined, of cache "final @ p" r] by simp
    then show ?thesis
      by (subst subst_loop.simps) (simp add: m cache_get_def i)
  qed
qed

text \<open>
  Claim C6, as amended. A matched token whose id has no cache entry does not make the pass
  loop: \<^verbatim>\<open>cache[match[1]]\<close> is \<^verbatim>\<open>undefined\<close>, the concatenation turns it into the
  text \<^verbatim>\<open>undefined\<close>, and the pass goes on exactly as if it had appended that text and
  continued in the remainder after the token, which is shorter than the source. When none
  of the token ids of the source is cached, the pass returns.
\<close>

theorem unregistered_token_replaced:
  assumes "smatch source = Some (p, i, r)" and "cache i = None"
  shows "subst_loop cache final source = subst_loop cache (final @ p @ ''undefined'') r
       \<and> length r < length source
       \<and> (set (tok_ids source) \<inter> dom cache = {} \<longrightarrow> (\<exists>out. subst_loop cache final source = Some out))"
proof -
  have "subst_loop cache final source = subst_loop cache (final @ p) (''undefined'' @ r)"
    by (subst subst_loop.simps) (simp add: assms cache_get_def)
  also have "\<dots> = subst_loop cache ((final @ p) @ ''undefined'') r"
    using nolt_undefined by (rule subst_loop_text)
  finally have "subst_loop cache final source = subst_loop cache (final @ p @ ''undefined'') r"
    by simp
  moreover have "length r < length source" using assms(1) by (rule smatch_shorter)
  ultimately show ?thesis using subst_loop_terminates_uncached by blast
qed

lemma smatch_ex1: "smatch ''a<#9#>b'' = Some (''a'', ''9'', ''b'')"
  by (simp add: is_idc_def)

text \<open>
  Claim C6, an instance: the root \<^verbatim>\<open>a<#9#>b\<close> and the empty cache.
\<close>

theorem unregistered_token_replaced_witness:
  "smatch ''a<#9#>b'' = Some (''a'', ''9'', ''b'') \<and> (Map.empty :: cache) ''9'' = None
   \<and> subst_loop Map.empty [] ''a<#9#>b'' = Some ''aundefinedb''
   \<and> set (tok_ids ''a<#9#>b'') \<inter> dom (Map.empty :: cache) = {}"
proof -
  have "subst_loop Map.empty [] ''a<#9#>b'' = subst_loop Map.empty ([] @ ''a'' @ ''undefined'') ''b''"
    using unregistered_token_replaced [of "''a<#9#>b''" "''a''" "''9''" "''b''" Map.empty "[]"] smatch_ex1
    by simp
  also have "\<dots> = Some ''aundefinedb''"
    by (subst subst_loop.simps) simp
  finally show ?thesis using smatch_ex1 by simp
qed

text \<open>
  Claim C6 as stated fails: the token \<^verbatim>\<open><#9#>\<close> is matched, its id has no cache entry, and
  the pass returns the text \<^verbatim>\<open>undefined\<close>.
\<close>

theorem unregistered_token_terminates:
  "smatch ''<#9#>'' = Some ([], ''9'', []) \<and> (Map.empty :: cache) ''9'' = None
   \<and> subst_loop Map.empty [] ''<#9#>'' = Some ''undefined''"
  by (simp add: subst_loop.simps cache_get_def is_idc_def)

subsection \<open>Facts about identifiers\<close>

lemma digit_char_cases: "d < 10 \<Longrightarrow> digit_char d \<in> set ''0123456789''"
  unfolding digit_char_def by (rule nth_mem) simp

lemma digit_char_inj: "a < 10 \<Longrightarrow> b < 10 \<Longrightarrow> digit_char a = digit_char b \<Longrightarrow> a = b"
proof -
  assume a: "a < 10" and b: "b < 10" and e: "digit_char a = digit_char b"
  have "distinct ''0123456789''" by simp
  moreover have "a < length ''0123456789''" "b < length ''0123456789''" using a b by simp_all
  ultimately show ?thesis using e unfolding digit_char_def by (simp only: nth_eq_iff_index_eq)
qed

lemma string_of_nat_digits: "set (string_of_nat n) \<subseteq> set ''0123456789''"
proof (induction n rule: string_of_nat.induct)
  case (1 n)
  show ?case
  proof (cases "n < 10")
    case True
    then show ?thesis using digit_char_cases [of n] by (subst string_of_nat.simps) simp
  next
    case False
    have "n mod 10 < 10" by simp
    then have "digit_char (n mod 10) \<in> set ''0123456789''" by (rule digit_char_cases)
    with 1 False show ?thesis by (subst string_of_nat.simps) simp
  qed
qed

lemma string_of_nat_nonempty: "string_of_nat n \<noteq> []"
  by (subst string_of_nat.simps) simp

lemma string_of_nat_small: "n < 10 \<Longrightarrow> string_of_nat n = [digit_char n]"
  by (subst string_of_nat.simps) simp

lemma string_of_nat_large:
  "\<not> n < 10 \<Longrightarrow> string_of_nat n = string_of_nat (n div 10) @ [digit_char (n mod 10)]"
  by (subst string_of_nat.simps) simp

lemma string_of_nat_length: "(length (string_of_nat n) = 1) = (n < 10)"
proof (cases "n < 10")
  case True
  then show ?thesis by (simp add: string_of_nat_small)
next
  case False
  have "length (string_of_nat (n div 10)) \<noteq> 0"
    using string_of_nat_nonempty [of "n div 10"] by simp
  with False show ?thesis by (simp add: string_of_nat_large)
qed

lemma string_of_nat_inj: "string_of_nat n = string_of_nat m \<Longrightarrow> n = m"
proof (induction n arbitrary: m rule: string_of_nat.induct)
  case (1 n)
  from "1.prems" have "(length (string_of_nat n) = 1) = (length (string_of_nat m) = 1)"
    by (simp only:)
  then have nm: "(n < 10) = (m < 10)" by (simp only: string_of_nat_length)
  show ?case
  proof (cases "n < 10")
    case True
    with nm have m: "m < 10" by simp
    from "1.prems" have "[digit_char n] = [digit_char m]"
      by (simp only: string_of_nat_small [OF True] string_of_nat_small [OF m])
    then have "digit_char n = digit_char m" by simp
    with True m show ?thesis by (rule digit_char_inj)
  next
    case False
    with nm have m: "\<not> m < 10" by simp
    from "1.prems"
    have "string_of_nat (n div 10) @ [digit_char (n mod 10)]
        = string_of_nat (m div 10) @ [digit_char (m mod 10)]"
      by (simp only: string_of_nat_large [OF False] string_of_nat_large [OF m])
    then have e: "string_of_nat (n div 10) = string_of_nat (m div 10)"
      "digit_char (n mod 10) = digit_char (m mod 10)" by simp_all
    from "1.IH" [OF False e(1)] have d: "n div 10 = m div 10" .
    have r: "n mod 10 = m mod 10"
      by (rule digit_char_inj [OF _ _ e(2)]) simp_all
    have "n = 10 * (n div 10) + n mod 10" by simp
    also have "\<dots> = 10 * (m div 10) + m mod 10" by (simp only: d r)
    also have "\<dots> = m" by simp
    finally show ?thesis .
  qed
qed

lemma takeWhile_upto: "d \<notin> set b \<Longrightarrow> takeWhile (\<lambda>c. c \<noteq> d) (b @ d # z) = b"
  by (induction b) auto

lemma dot_terminated_prefix:
  assumes "CHR ''.'' \<notin> set a" "CHR ''.'' \<notin> set b" "prefix (a @ ''.'') (b @ ''.'')"
  shows "a = b"
proof -
  from assms(3) obtain z where z: "b @ ''.'' = (a @ ''.'') @ z" by (auto simp: prefix_def)
  have "takeWhile (\<lambda>c. c \<noteq> CHR ''.'') (b @ CHR ''.'' # []) = b"
    using assms(2) by (rule takeWhile_upto)
  moreover have "takeWhile (\<lambda>c. c \<noteq> CHR ''.'') (a @ CHR ''.'' # z) = a"
    using assms(1) by (rule takeWhile_upto)
  ultimately show ?thesis using z by simp
qed

lemma string_of_nat_no_dot: "CHR ''.'' \<notin> set (string_of_nat n)"
  using string_of_nat_digits [of n] by auto

lemma sibling_ids_apart:
  assumes "n \<noteq> m"
  shows "\<not> prefix (p @ string_of_nat n @ ''.'') (p @ string_of_nat m @ ''.'')"
proof
  assume "prefix (p @ string_of_nat n @ ''.'') (p @ string_of_nat m @ ''.'')"
  then have "prefix (string_of_nat n @ ''.'') (string_of_nat m @ ''.'')" by simp
  with string_of_nat_no_dot string_of_nat_no_dot have "string_of_nat n = string_of_nat m"
    by (rule dot_terminated_prefix)
  with assms show False by (auto dest: string_of_nat_inj)
qed

subsection \<open>Facts about components and boundaries\<close>

lemma nextHydrateContext_Some:
  "shared_context s = Some c \<Longrightarrow>
   nextHydrateContext s = (Some (child_of c), s\<lparr>shared_context := Some (c\<lparr>hc_count := hc_count c + 1\<rparr>)\<rparr>)"
  by (simp add: nextHydrateContext_def)

lemma createComponent_Some:
  assumes "shared_context s = Some c"
  shows "createComponent Comp s =
    (case Comp (s\<lparr>shared_context := Some (child_of c)\<rparr>) of
       (Inl e, s2) \<Rightarrow> (Inl e, s2)
     | (Inr v, s2) \<Rightarrow> (Inr v, s2\<lparr>shared_context := Some (c\<lparr>hc_count := hc_count c + 1\<rparr>)\<rparr>))"
  using assms
  by (simp add: createComponent_def nextHydrateContext_def setHydrateContext_def
      split: prod.splits sum.splits)

lemma runSuspense_returns:
  assumes "runSuspense props ctx bid s = (Inr res, s4)"
  shows "shared_context s4 = Some (ctx\<lparr>hc_count := 1\<rparr>)"
proof -
  let ?s0 = "setHydrateContext (Some (ctx\<lparr>hc_count := 0\<rparr>)) s"
  have c: "shared_context ?s0 = Some (ctx\<lparr>hc_count := 0\<rparr>)" by (simp add: setHydrateContext_def)
  from assms show ?thesis
    unfolding runSuspense_def createComponent_Some [OF c]
    by (auto split: prod.splits sum.splits)
qed

lemma suspense_done_cb [simp]: "suspense (done_cb key v s) = suspense s"
  by (simp add: done_cb_def Let_def split: option.splits)

lemma fan_in_done_cb [simp]: "fan_in (done_cb key v s) bid = fan_in s bid"
  by (simp add: fan_in_def)

lemma trace_done_cb [simp]: "trace (done_cb key v s) = trace s @ [Done key v]"
  by (simp add: done_cb_def Let_def split: option.splits)

lemma suspense_async:
  assumes "shared_context s = Some ctx0" "hc_async ctx0"
    and "ctx = (if hc_streaming ctx0 then ctx0\<lparr>hc_count := hc_count ctx0 + 1\<rparr> else ctx0)"
    and "bid = boundary_id ctx"
    and "Suspense props s = (Inr out, s')"
  shows "\<exists>s1 res s4.
      (if hc_streaming ctx0 then (\<exists>v. createComponent (children props) s = (Inr v, s1)) else s1 = s)
    \<and> lookup_callback s1
    \<and> runSuspense props ctx bid (enter_boundary bid s1) = (Inr res, s4)
    \<and> (fan_in s4 bid = Some True \<and> out = res \<and> s' = done_cb bid None s4
       \<or> fan_in s4 bid = Some False \<and> out = Obj (Str (token bid)) \<and> s' = s4)"
proof -
  obtain r1 s1 where s1: "(if hc_streaming ctx0 then createComponent (children props) s else (Inr Nullish, s)) = (r1, s1)"
    by (cases "(if hc_streaming ctx0 then createComponent (children props) s else (Inr Nullish, s))") auto
  have a: "hc_async ctx" using assms(2,3) by simp
  from assms(5) s1 obtain v1 where r1: "r1 = Inr v1"
    by (cases r1) (auto simp: Suspense_def assms(1))
  from assms(5) s1 r1 a have inst: "lookup_callback s1"
    by (auto simp: Suspense_def assms(1) assms(3) [symmetric] Let_def split: if_splits)
  obtain r4 s4 where s4: "runSuspense props ctx bid (enter_boundary bid s1) = (r4, s4)"
    by (cases "runSuspense props ctx bid (enter_boundary bid s1)") auto
  from assms(5) s1 r1 a inst s4
  have rest: "(case r4 of Inl e \<Rightarrow> (Inl e, s4)
     | Inr res \<Rightarrow>
        (case fan_in s4 bid of
           Some True \<Rightarrow> (Inr res, done_cb bid None s4)
         | Some False \<Rightarrow>
             (case shared_context s4 of
                Some c \<Rightarrow> (Inr (if hc_async c then Obj (Str (token bid)) else fallback props), s4)
              | None \<Rightarrow> (Inl TypeError, s4))
         | None \<Rightarrow> (Inl TypeError, s4))) = (Inr out, s')"
    by (simp add: Suspense_def assms(1) assms(3) [symmetric] assms(4) [symmetric] Let_def)
  then obtain res where r4: "r4 = Inr res" by (cases r4) auto
  from s4 r4 have c4: "shared_context s4 = Some (ctx\<lparr>hc_count := 1\<rparr>)"
    by (auto dest: runSuspense_returns)
  from rest r4 c4 a
  have "fan_in s4 bid = Some True \<and> out = res \<and> s' = done_cb bid None s4
       \<or> fan_in s4 bid = Some False \<and> out = Obj (Str (token bid)) \<and> s' = s4"
    by (auto split: option.splits bool.splits)
  moreover have "if hc_streaming ctx0 then (\<exists>v. createComponent (children props) s = (Inr v, s1)) else s1 = s"
    using s1 r1 by (auto split: if_splits)
  ultimately show ?thesis using inst s4 r4 by blast
qed

lemma shared_context_done_cb [simp]: "shared_context (done_cb key v s) = shared_context s"
  by (simp add: done_cb_def Let_def split: option.splits)

lemma suspense_slot:
  assumes "shared_context s = Some c" "hc_async c" "Suspense props s = (Inr out, t)"
  shows "shared_context t = Some (c\<lparr>hc_count := 1\<rparr>)"
proof -
  let ?ctx = "if hc_streaming c then c\<lparr>hc_count := hc_count c + 1\<rparr> else c"
  from suspense_async [OF assms(1,2) refl refl assms(3)] obtain s1 res s4
    where r: "runSuspense props ?ctx (boundary_id ?ctx) (enter_boundary (boundary_id ?ctx) s1) = (Inr res, s4)"
      and t: "t = done_cb (boundary_id ?ctx) None s4 \<or> t = s4" by blast
  from r have "shared_context s4 = Some (?ctx\<lparr>hc_count := 1\<rparr>)" by (rule runSuspense_returns)
  then have "shared_context s4 = Some (c\<lparr>hc_count := 1\<rparr>)" by simp
  with t show ?thesis by auto
qed

subsection \<open>Claim C3: the ids of child contexts\<close>

lemma spawn_shape:
  "shared_context s = Some c \<Longrightarrow>
   \<exists>chs. spawn k s = (chs, s\<lparr>shared_context := Some (c\<lparr>hc_count := hc_count c + k\<rparr>)\<rparr>)
     \<and> length chs = k \<and> (\<forall>i<k. chs ! i = child_of (c\<lparr>hc_count := hc_count c + i\<rparr>))"
proof (induction k arbitrary: s c)
  case 0
  then show ?case by simp
next
  case (Suc k)
  let ?c1 = "c\<lparr>hc_count := hc_count c + 1\<rparr>"
  let ?s1 = "s\<lparr>shared_context := Some ?c1\<rparr>"
  have n: "nextHydrateContext s = (Some (child_of c), ?s1)"
    using Suc.prems by (rule nextHydrateContext_Some)
  have "shared_context ?s1 = Some ?c1" by simp
  from Suc.IH [OF this] obtain chs
    where r: "spawn k ?s1 = (chs, ?s1\<lparr>shared_context := Some (?c1\<lparr>hc_count := hc_count ?c1 + k\<rparr>)\<rparr>)"
      and l: "length chs = k"
      and i: "\<forall>i<k. chs ! i = child_of (?c1\<lparr>hc_count := hc_count ?c1 + i\<rparr>)" by blast
  have "spawn (Suc k) s = (child_of c # chs, s\<lparr>shared_context := Some (c\<lparr>hc_count := hc_count c + Suc k\<rparr>)\<rparr>)"
    using n r by simp
  moreover have "length (child_of c # chs) = Suc k" using l by simp
  moreover have "(child_of c # chs) ! j = child_of (c\<lparr>hc_count := hc_count c + j\<rparr>)" if "j < Suc k" for j
  proof (cases j)
    case 0
    then show ?thesis by simp
  next
    case (Suc j')
    with that i show ?thesis by simp
  qed
  ultimately show ?case by blast
qed

lemma render_each_slot:
  "shared_context s = Some c \<Longrightarrow> render_each fs s = (Inr vs, t) \<Longrightarrow>
   shared_context t = Some (c\<lparr>hc_count := hc_count c + length fs\<rparr>) \<and> length vs = length fs"
proof (induction fs arbitrary: s c vs)
  case Nil
  then show ?case by simp
next
  case (Cons f fs)
  from Cons.prems(2) obtain v s1 vs' where
    f: "createComponent f s = (Inr v, s1)" and r: "render_each fs s1 = (Inr vs', t)" and vs: "vs = v # vs'"
    by (auto split: prod.splits sum.splits)
  from f have "shared_context s1 = Some (c\<lparr>hc_count := hc_count c + 1\<rparr>)"
    unfolding createComponent_Some [OF Cons.prems(1)] by (auto split: prod.splits sum.splits)
  from Cons.IH [OF this r] vs show ?case by simp
qed

lemma child_ids_apart:
  assumes "n \<noteq> m"
  shows "hc_id (child_of (c\<lparr>hc_count := n\<rparr>)) \<noteq> hc_id (child_of (c\<lparr>hc_count := m\<rparr>))
       \<and> \<not> prefix (hc_id (child_of (c\<lparr>hc_count := n\<rparr>))) (hc_id (child_of (c\<lparr>hc_count := m\<rparr>)))"
proof -
  have "\<not> prefix (hc_id c @ string_of_nat n @ ''.'') (hc_id c @ string_of_nat m @ ''.'')"
    using assms by (rule sibling_ids_apart)
  then have p: "\<not> prefix (hc_id (child_of (c\<lparr>hc_count := n\<rparr>))) (hc_id (child_of (c\<lparr>hc_count := m\<rparr>)))"
    by (simp add: child_of_def)
  then have "hc_id (child_of (c\<lparr>hc_count := n\<rparr>)) \<noteq> hc_id (child_of (c\<lparr>hc_count := m\<rparr>))"
    by auto
  with p show ?thesis by blast
qed

text \<open>
  Claim C3, as amended. When a context \<open>c\<close> is active, \<^verbatim>\<open>nextHydrateContext\<close> returns a
  child whose id is \<open>c\<close>'s id, then \<open>c\<close>'s count in decimal, then a dot, and whose count
  is 0, and it advances \<open>c\<close>'s count by one. \<^verbatim>\<open>createComponent\<close> runs the component under
  this child and, when the component returns, puts \<open>c\<close> back with its count advanced by
  one, whatever the component did. So after any components rendered in a row through
  \<^verbatim>\<open>createComponent\<close>, the next one runs under the child built from \<open>c\<close>'s count plus
  their number. Children built from different counts of \<open>c\<close> have different ids, neither
  a prefix of the other; in particular the \<open>k\<close> children spawned in a row from \<open>c\<close>.
  The ids of all positions under \<open>c\<close> are not kept apart, though: a boundary that is
  called directly in async mode and returns leaves in the slot a copy of \<open>c\<close> whose count
  is 1, whatever \<open>c\<close>'s count was.
\<close>

theorem child_context_ids:
  assumes "shared_context s = Some c"
  shows "\<exists>ch s' chs s''.
      nextHydrateContext s = (Some ch, s')
    \<and> hc_id ch = hc_id c @ string_of_nat (hc_count c) @ ''.''
    \<and> hc_count ch = 0
    \<and> shared_context s' = Some (c\<lparr>hc_count := hc_count c + 1\<rparr>)
    \<and> (\<forall>Comp. createComponent Comp s =
          (case Comp (s\<lparr>shared_context := Some ch\<rparr>) of
             (Inl e, s2) \<Rightarrow> (Inl e, s2)
           | (Inr v, s2) \<Rightarrow> (Inr v, s2\<lparr>shared_context := Some (c\<lparr>hc_count := hc_count c + 1\<rparr>)\<rparr>)))
    \<and> (\<forall>fs vs t. render_each fs s = (Inr vs, t) \<longrightarrow>
          length vs = length fs
        \<and> shared_context t = Some (c\<lparr>hc_count := hc_count c + length fs\<rparr>)
        \<and> (\<forall>Comp. createComponent Comp t =
             (case Comp (t\<lparr>shared_context := Some (child_of (c\<lparr>hc_count := hc_count c + length fs\<rparr>))\<rparr>) of
                (Inl e, u) \<Rightarrow> (Inl e, u)
              | (Inr v, u) \<Rightarrow>
                  (Inr v, u\<lparr>shared_context := Some (c\<lparr>hc_count := hc_count c + length fs + 1\<rparr>)\<rparr>))))
    \<and> (\<forall>n m. n \<noteq> m \<longrightarrow>
          hc_id (child_of (c\<lparr>hc_count := n\<rparr>)) \<noteq> hc_id (child_of (c\<lparr>hc_count := m\<rparr>))
        \<and> \<not> prefix (hc_id (child_of (c\<lparr>hc_count := n\<rparr>))) (hc_id (child_of (c\<lparr>hc_count := m\<rparr>))))
    \<and> (hc_async c \<longrightarrow> (\<forall>props out t. Suspense props s = (Inr out, t) \<longrightarrow>
          shared_context t = Some (c\<lparr>hc_count := 1\<rparr>)))
    \<and> spawn k s = (chs, s'')
    \<and> length chs = k
    \<and> shared_context s'' = Some (c\<lparr>hc_count := hc_count c + k\<rparr>)
    \<and> (\<forall>i<k. hc_id (chs ! i) = hc_id c @ string_of_nat (hc_count c + i) @ ''.''
             \<and> hc_count (chs ! i) = 0)
    \<and> (\<forall>i<k. \<forall>j<k. i \<noteq> j \<longrightarrow>
           hc_id (chs ! i) \<noteq> hc_id (chs ! j) \<and> \<not> prefix (hc_id (chs ! i)) (hc_id (chs ! j)))"
proof -
  from spawn_shape [OF assms, of k] obtain chs
    where sp: "spawn k s = (chs, s\<lparr>shared_context := Some (c\<lparr>hc_count := hc_count c + k\<rparr>)\<rparr>)"
      and len: "length chs = k"
      and nth: "\<forall>i<k. chs ! i = child_of (c\<lparr>hc_count := hc_count c + i\<rparr>)" by blast
  have id: "hc_id (chs ! i) = hc_id c @ string_of_nat (hc_count c + i) @ ''.''"
    and cnt: "hc_count (chs ! i) = 0" if "i < k" for i
    using that nth by (simp_all add: child_of_def)
  have apart: "\<not> prefix (hc_id (chs ! i)) (hc_id (chs ! j))" if "i < k" "j < k" "i \<noteq> j" for i j
  proof -
    from that(3) have "hc_count c + i \<noteq> hc_count c + j" by simp
    then have "\<not> prefix (hc_id c @ string_of_nat (hc_count c + i) @ ''.'')
        (hc_id c @ string_of_nat (hc_count c + j) @ ''.'')" by (rule sibling_ids_apart)
    then show ?thesis unfolding id [OF that(1)] id [OF that(2)] .
  qed
  have neq: "hc_id (chs ! i) \<noteq> hc_id (chs ! j)" if "i < k" "j < k" "i \<noteq> j" for i j
    using apart [OF that] by auto
  have 1: "nextHydrateContext s =
      (Some (child_of c), s\<lparr>shared_context := Some (c\<lparr>hc_count := hc_count c + 1\<rparr>)\<rparr>)"
    using assms by (rule nextHydrateContext_Some)
  have 2: "hc_id (child_of c) = hc_id c @ string_of_nat (hc_count c) @ ''.''"
    "hc_count (child_of c) = 0" by (simp_all add: child_of_def)
  have 3: "\<forall>i<k. hc_id (chs ! i) = hc_id c @ string_of_nat (hc_count c + i) @ ''.''
             \<and> hc_count (chs ! i) = 0" using id cnt by blast
  have 4: "\<forall>i<k. \<forall>j<k. i \<noteq> j \<longrightarrow>
           hc_id (chs ! i) \<noteq> hc_id (chs ! j) \<and> \<not> prefix (hc_id (chs ! i)) (hc_id (chs ! j))"
    using neq apart by blast
  have 5: "\<forall>Comp. createComponent Comp s =
          (case Comp (s\<lparr>shared_context := Some (child_of c)\<rparr>) of
             (Inl e, s2) \<Rightarrow> (Inl e, s2)
           | (Inr v, s2) \<Rightarrow> (Inr v, s2\<lparr>shared_context := Some (c\<lparr>hc_count := hc_count c + 1\<rparr>)\<rparr>))"
    using createComponent_Some [OF assms] by blast
  have 6: "shared_context (s\<lparr>shared_context := Some (c\<lparr>hc_count := hc_count c + 1\<rparr>)\<rparr>)
      = Some (c\<lparr>hc_count := hc_count c + 1\<rparr>)"
    "shared_context (s\<lparr>shared_context := Some (c\<lparr>hc_count := hc_count c + k\<rparr>)\<rparr>)
      = Some (c\<lparr>hc_count := hc_count c + k\<rparr>)" by simp_all
  have 7: "\<forall>fs vs t. render_each fs s = (Inr vs, t) \<longrightarrow>
          length vs = length fs
        \<and> shared_context t = Some (c\<lparr>hc_count := hc_count c + length fs\<rparr>)
        \<and> (\<forall>Comp. createComponent Comp t =
             (case Comp (t\<lparr>shared_context := Some (child_of (c\<lparr>hc_count := hc_count c + length fs\<rparr>))\<rparr>) of
                (Inl e, u) \<Rightarrow> (Inl e, u)
              | (Inr v, u) \<Rightarrow>
                  (Inr v, u\<lparr>shared_context := Some (c\<lparr>hc_count := hc_count c + length fs + 1\<rparr>)\<rparr>)))"
  proof (intro allI impI)
    fix fs vs t
    assume r: "render_each fs s = (Inr vs, t)"
    from render_each_slot [OF assms r]
    have t: "shared_context t = Some (c\<lparr>hc_count := hc_count c + length fs\<rparr>)"
      and l: "length vs = length fs" by blast+
    have "createComponent Comp t =
             (case Comp (t\<lparr>shared_context := Some (child_of (c\<lparr>hc_count := hc_count c + length fs\<rparr>))\<rparr>) of
                (Inl e, u) \<Rightarrow> (Inl e, u)
              | (Inr v, u) \<Rightarrow>
                  (Inr v, u\<lparr>shared_context := Some (c\<lparr>hc_count := hc_count c + length fs + 1\<rparr>)\<rparr>))" for Comp
      using createComponent_Some [OF t, of Comp] by (simp add: add.assoc split: prod.splits sum.splits)
    with t l show "length vs = length fs
        \<and> shared_context t = Some (c\<lparr>hc_count := hc_count c + length fs\<rparr>)
        \<and> (\<forall>Comp. createComponent Comp t =
             (case Comp (t\<lparr>shared_context := Some (child_of (c\<lparr>hc_count := hc_count c + length fs\<rparr>))\<rparr>) of
                (Inl e, u) \<Rightarrow> (Inl e, u)
              | (Inr v, u) \<Rightarrow>
                  (Inr v, u\<lparr>shared_context := Some (c\<lparr>hc_count := hc_count c + length fs + 1\<rparr>)\<rparr>)))"
      by blast
  qed
  have 8: "\<forall>n m. n \<noteq> m \<longrightarrow>
          hc_id (child_of (c\<lparr>hc_count := n\<rparr>)) \<noteq> hc_id (child_of (c\<lparr>hc_count := m\<rparr>))
        \<and> \<not> prefix (hc_id (child_of (c\<lparr>hc_count := n\<rparr>))) (hc_id (child_of (c\<lparr>hc_count := m\<rparr>)))"
    using child_ids_apart by blast
  have 9: "hc_async c \<longrightarrow> (\<forall>props out t. Suspense props s = (Inr out, t) \<longrightarrow>
          shared_context t = Some (c\<lparr>hc_count := 1\<rparr>))"
    using suspense_slot [OF assms] by blast
  show ?thesis
    by (intro exI conjI) (rule 1 2 5 6 7 8 9 sp len 3 4)+
qed

lemma driven_slot: "shared_context driven = Some root_ctx"
  by (simp add: driven_def init_state_def)

lemma driven_run:
  "fst (render_each [whoami, Suspense named, whoami] driven) = Inr [Str ''0.'', Str ''1.0.'', Str ''2.'']"
  "map hc_id (fst (spawn 3 driven)) = [''0.'', ''1.'', ''2.'']"
  by code_simp+

lemma after_two:
  "shared_context (snd (render_each [whoami, whoami] driven)) = Some (root_ctx\<lparr>hc_count := 2\<rparr>)"
  "hc_async (root_ctx\<lparr>hc_count := 2\<rparr>)"
  "fst (Suspense named (snd (render_each [whoami, whoami] driven))) = Inr (Str ''0.'')"
  by code_simp+

text \<open>
  Claim C3, instances. Three children spawned in a row from the root context have the ids
  \<^verbatim>\<open>0.\<close>, \<^verbatim>\<open>1.\<close> and \<^verbatim>\<open>2.\<close>. Of three components rendered through
  \<^verbatim>\<open>createComponent\<close>, the second a boundary, the first and the third run under \<^verbatim>\<open>0.\<close>
  and \<^verbatim>\<open>2.\<close>, the children of the boundary under \<^verbatim>\<open>1.0.\<close>, and the root's count ends
  at 3. After two components the root's count is 2, and a boundary called directly there
  leaves the count 1 in the slot.
\<close>

theorem child_context_ids_witness:
  "shared_context driven = Some root_ctx
   \<and> map hc_id (fst (spawn 3 driven)) = [''0.'', ''1.'', ''2.'']
   \<and> hc_id (fst (spawn 3 driven) ! 0) \<noteq> hc_id (fst (spawn 3 driven) ! 2)
   \<and> \<not> prefix (hc_id (fst (spawn 3 driven) ! 0)) (hc_id (fst (spawn 3 driven) ! 2))
   \<and> fst (render_each [whoami, Suspense named, whoami] driven)
       = Inr [Str ''0.'', Str ''1.0.'', Str ''2.'']
   \<and> shared_context (snd (render_each [whoami, Suspense named, whoami] driven))
       = Some (root_ctx\<lparr>hc_count := 3\<rparr>)
   \<and> hc_id (child_of (root_ctx\<lparr>hc_count := 0\<rparr>)) \<noteq> hc_id (child_of (root_ctx\<lparr>hc_count := 2\<rparr>))
   \<and> shared_context (snd (render_each [whoami, whoami] driven)) = Some (root_ctx\<lparr>hc_count := 2\<rparr>)
   \<and> hc_async (root_ctx\<lparr>hc_count := 2\<rparr>)
   \<and> fst (Suspense named (snd (render_each [whoami, whoami] driven))) = Inr (Str ''0.'')
   \<and> shared_context (snd (Suspense named (snd (render_each [whoami, whoami] driven))))
       = Some (root_ctx\<lparr>hc_count := 1\<rparr>)"
proof -
  from child_context_ids [OF driven_slot, of 3] obtain chs s''
    where sp: "spawn 3 driven = (chs, s'')"
      and ap: "\<forall>i<3. \<forall>j<3. i \<noteq> j \<longrightarrow>
        hc_id (chs ! i) \<noteq> hc_id (chs ! j) \<and> \<not> prefix (hc_id (chs ! i)) (hc_id (chs ! j))"
      and re: "\<forall>fs vs t. render_each fs driven = (Inr vs, t) \<longrightarrow>
          length vs = length fs
        \<and> shared_context t = Some (root_ctx\<lparr>hc_count := hc_count root_ctx + length fs\<rparr>)
        \<and> (\<forall>Comp. createComponent Comp t =
             (case Comp (t\<lparr>shared_context := Some (child_of (root_ctx\<lparr>hc_count := hc_count root_ctx + length fs\<rparr>))\<rparr>) of
                (Inl e, u) \<Rightarrow> (Inl e, u)
              | (Inr v, u) \<Rightarrow>
                  (Inr v, u\<lparr>shared_context := Some (root_ctx\<lparr>hc_count := hc_count root_ctx + length fs + 1\<rparr>)\<rparr>)))"
      and nm: "\<forall>n m. n \<noteq> m \<longrightarrow>
          hc_id (child_of (root_ctx\<lparr>hc_count := n\<rparr>)) \<noteq> hc_id (child_of (root_ctx\<lparr>hc_count := m\<rparr>))
        \<and> \<not> prefix (hc_id (child_of (root_ctx\<lparr>hc_count := n\<rparr>))) (hc_id (child_of (root_ctx\<lparr>hc_count := m\<rparr>)))"
    by (elim exE conjE) (rule that, assumption+)
  have "(0::nat) < 3" "(2::nat) < 3" "(0::nat) \<noteq> 2" by simp_all
  with ap have a: "hc_id (chs ! 0) \<noteq> hc_id (chs ! 2) \<and> \<not> prefix (hc_id (chs ! 0)) (hc_id (chs ! 2))"
    by blast
  obtain t where t: "render_each [whoami, Suspense named, whoami] driven
      = (Inr [Str ''0.'', Str ''1.0.'', Str ''2.''], t)"
    using driven_run(1) by (cases "render_each [whoami, Suspense named, whoami] driven") simp
  from re [rule_format, OF t]
  have "shared_context t = Some (root_ctx\<lparr>hc_count := hc_count root_ctx + 3\<rparr>)" by simp
  with t have b: "shared_context (snd (render_each [whoami, Suspense named, whoami] driven))
      = Some (root_ctx\<lparr>hc_count := 3\<rparr>)" by (simp add: root_ctx_def)
  have "(0::nat) \<noteq> 2" by simp
  with nm have c: "hc_id (child_of (root_ctx\<lparr>hc_count := 0\<rparr>)) \<noteq> hc_id (child_of (root_ctx\<lparr>hc_count := 2\<rparr>))"
    by blast
  let ?s2 = "snd (render_each [whoami, whoami] driven)"
  obtain u where u: "Suspense named ?s2 = (Inr (Str ''0.''), u)"
    using after_two(3) by (cases "Suspense named ?s2") simp
  from child_context_ids [OF after_two(1), of 0] obtain
    su: "hc_async (root_ctx\<lparr>hc_count := 2\<rparr>) \<longrightarrow> (\<forall>props out t. Suspense props ?s2 = (Inr out, t) \<longrightarrow>
          shared_context t = Some (root_ctx\<lparr>hc_count := 2, hc_count := 1\<rparr>))"
    by (elim exE conjE) (rule that, assumption+)
  from su [THEN mp, OF after_two(2), rule_format, OF u] u
  have d: "shared_context (snd (Suspense named ?s2)) = Some (root_ctx\<lparr>hc_count := 1\<rparr>)" by simp
  from sp have f: "fst (spawn 3 driven) = chs" by simp
  show ?thesis
    unfolding f using driven_slot driven_run [unfolded f] a b c d after_two by (intro conjI) simp_all
qed

text \<open>
  Claim C3 as stated fails. Two components rendered under the root get the ids \<^verbatim>\<open>0.\<close>
  and \<^verbatim>\<open>1.\<close>. A boundary called directly then leaves in the slot the copy of the root
  that \<^verbatim>\<open>runSuspense\<close> made, its count started again at 0: the children of the boundary
  and the component rendered after it get \<^verbatim>\<open>0.\<close> and \<^verbatim>\<open>1.\<close> again, and the count in the
  slot is 2 after four children.
\<close>

theorem sibling_ids_repeat:
  "shared_context driven = Some root_ctx
   \<and> fst (mixed_siblings driven) = Inr (Arr [Str ''0.'', Str ''1.'', Str ''0.'', Str ''1.''])
   \<and> shared_context (snd (mixed_siblings driven)) = Some (root_ctx\<lparr>hc_count := 2\<rparr>)"
  by code_simp

subsection \<open>Claim C4: the active context around a component\<close>

text \<open>
  Claim C4, as amended. While a context \<open>c\<close> is active, \<^verbatim>\<open>createComponent\<close> runs the
  component with the child context in the slot. When the component returns, the slot holds
  \<open>c\<close> again, its count advanced by the one child; when the component throws, the
  exception passes through and the slot is left as the component left it.
\<close>

theorem createComponent_restores_on_return:
  assumes "shared_context s = Some c"
    and "Comp (s\<lparr>shared_context := Some (child_of c)\<rparr>) = (r, s2)"
  shows "createComponent Comp s =
    (r, case r of Inr v \<Rightarrow> s2\<lparr>shared_context := Some (c\<lparr>hc_count := hc_count c + 1\<rparr>)\<rparr>
              | Inl e \<Rightarrow> s2)"
  using assms(2) by (simp add: createComponent_Some [OF assms(1)] split: sum.splits)

text \<open>
  Claim C4, two instances from the root context: a component that returns, and one that
  throws at once.
\<close>

theorem createComponent_restores_on_return_witness:
  "shared_context (init_state root_ctx) = Some root_ctx
   \<and> createComponent (return_c (Str ''x'')) (init_state root_ctx)
       = (Inr (Str ''x''), (init_state root_ctx)\<lparr>shared_context := Some (root_ctx\<lparr>hc_count := 1\<rparr>)\<rparr>)
   \<and> createComponent (throw_c (Thrown ''boom'')) (init_state root_ctx)
       = (Inl (Thrown ''boom''), (init_state root_ctx)\<lparr>shared_context := Some (child_of root_ctx)\<rparr>)"
proof -
  have c: "shared_context (init_state root_ctx) = Some root_ctx" by (simp add: init_state_def)
  have 1: "return_c (Str ''x'') ((init_state root_ctx)\<lparr>shared_context := Some (child_of root_ctx)\<rparr>)
      = (Inr (Str ''x''), (init_state root_ctx)\<lparr>shared_context := Some (child_of root_ctx)\<rparr>)"
    by (simp add: return_c_def)
  have 2: "throw_c (Thrown ''boom'') ((init_state root_ctx)\<lparr>shared_context := Some (child_of root_ctx)\<rparr>)
      = (Inl (Thrown ''boom''), (init_state root_ctx)\<lparr>shared_context := Some (child_of root_ctx)\<rparr>)"
    by (simp add: throw_c_def)
  from createComponent_restores_on_return [where Comp = "return_c (Str ''x'')", OF c 1]
    createComponent_restores_on_return [where Comp = "throw_c (Thrown ''boom'')", OF c 2] c
  show ?thesis by (simp add: root_ctx_def)
qed

text \<open>
  Claim C4 as stated fails: after the exception of a component that throws at once, the
  slot holds the child context \<^verbatim>\<open>0.\<close>, not the context it held on entry.
\<close>

theorem createComponent_throw_not_restored:
  "shared_context (init_state root_ctx) = Some root_ctx
   \<and> fst (createComponent (throw_c (Thrown ''boom'')) (init_state root_ctx)) = Inl (Thrown ''boom'')
   \<and> shared_context (snd (createComponent (throw_c (Thrown ''boom'')) (init_state root_ctx)))
       = Some (root_ctx\<lparr>hc_id := ''0.''\<rparr>)
   \<and> root_ctx\<lparr>hc_id := ''0.''\<rparr> \<noteq> root_ctx"
  by code_simp

subsection \<open>Claim C8: Suspense outside async mode\<close>

text \<open>
  Claim C8, as amended. When the active context is not in async mode, \<^verbatim>\<open>Suspense\<close> returns
  \<^verbatim>\<open>props.fallback\<close>. Outside streaming mode it does nothing else: the children are not
  evaluated and the state is untouched. In streaming mode it first renders the children
  once through \<^verbatim>\<open>createComponent\<close> and drops the result (an exception of the children
  passes through).
\<close>

theorem suspense_not_async:
  assumes "shared_context s = Some ctx" "\<not> hc_async ctx"
  shows "Suspense props s =
    (if hc_streaming ctx
     then (case createComponent (children props) s of
             (Inl e, s1) \<Rightarrow> (Inl e, s1)
           | (Inr v, s1) \<Rightarrow> (Inr (fallback props), s1))
     else (Inr (fallback props), s))"
  using assms by (simp add: Suspense_def split: prod.splits sum.splits)

text \<open>
  Claim C8, two instances: the boundary \<open>probe\<close> under a root that is neither async nor
  streaming, and under a streaming root.
\<close>

theorem suspense_not_async_witness:
  "shared_context (init_state plain_ctx) = Some plain_ctx \<and> \<not> hc_async plain_ctx
   \<and> Suspense probe (init_state plain_ctx) = (Inr (Str ''wait''), init_state plain_ctx)
   \<and> shared_context (init_state stream_ctx) = Some stream_ctx \<and> \<not> hc_async stream_ctx
   \<and> fst (Suspense probe (init_state stream_ctx)) = Inr (Str ''wait'')
   \<and> snd (Suspense probe (init_state stream_ctx))
       = snd (createComponent (children probe) (init_state stream_ctx))"
proof -
  have p: "shared_context (init_state plain_ctx) = Some plain_ctx" "\<not> hc_async plain_ctx"
    "\<not> hc_streaming plain_ctx" "fallback probe = Str ''wait''"
    by (simp_all add: init_state_def plain_ctx_def probe_def)
  have t: "shared_context (init_state stream_ctx) = Some stream_ctx" "\<not> hc_async stream_ctx"
    "hc_streaming stream_ctx"
    by (simp_all add: init_state_def stream_ctx_def)
  have r: "fst (createComponent (children probe) (init_state stream_ctx)) = Inr (Str ''child'')"
    by code_simp
  from suspense_not_async [OF p(1,2), of probe] p
  have 1: "Suspense probe (init_state plain_ctx) = (Inr (Str ''wait''), init_state plain_ctx)"
    by simp
  from suspense_not_async [OF t(1,2), of probe] t(3) r p(4)
  have 2: "fst (Suspense probe (init_state stream_ctx)) = Inr (Str ''wait'')"
    "snd (Suspense probe (init_state stream_ctx))
       = snd (createComponent (children probe) (init_state stream_ctx))"
    by (simp_all split: prod.splits sum.splits)
  from 1 2 p t show ?thesis by simp
qed

text \<open>
  Claim C8 as stated fails: under a root that streams and is not async, \<^verbatim>\<open>Suspense\<close>
  returns the fallback, and the children have been rendered: the resource they create is
  allocated.
\<close>

theorem streaming_renders_children:
  "shared_context (init_state stream_ctx) = Some stream_ctx \<and> \<not> hc_async stream_ctx
   \<and> fst (Suspense probe (init_state stream_ctx)) = Inr (fallback probe)
   \<and> allocated (init_state stream_ctx) = 0
   \<and> allocated (snd (Suspense probe (init_state stream_ctx))) = 1
   \<and> Suspense probe (init_state stream_ctx) \<noteq> (Inr (fallback probe), init_state stream_ctx)"
proof -
  have 1: "shared_context (init_state stream_ctx) = Some stream_ctx" "\<not> hc_async stream_ctx"
    "fst (Suspense probe (init_state stream_ctx)) = Inr (fallback probe)"
    "allocated (init_state stream_ctx) = 0"
    "allocated (snd (Suspense probe (init_state stream_ctx))) = 1"
    by code_simp+
  from 1(4,5) have "Suspense probe (init_state stream_ctx) \<noteq> (Inr (fallback probe), init_state stream_ctx)"
    by (metis snd_conv zero_neq_one)
  with 1 show ?thesis by simp
qed

subsection \<open>Claim C9: the token of a pending boundary\<close>

lemma path_id_root: "path_id (hc_id root_ctx)"
  by (simp add: path_id_def root_ctx_def)

lemma is_idc_digit: "c \<in> set ''0123456789'' \<Longrightarrow> is_idc c"
  by (auto simp: is_idc_def)

lemma is_idc_dot: "is_idc CHR ''.''"
  by (simp add: is_idc_def)

lemma path_id_child:
  assumes "path_id (hc_id c)"
  shows "path_id (hc_id (child_of c))"
proof -
  have "is_idc x" if "x \<in> set (string_of_nat (hc_count c))" for x
    using that string_of_nat_digits [of "hc_count c"] by (blast intro: is_idc_digit)
  with assms is_idc_dot show ?thesis
    by (auto simp: path_id_def child_of_def)
qed

lemma smatch_token:
  assumes "i \<noteq> []" "\<forall>c\<in>set i. is_idc c"
  shows "smatch (''<#'' @ i @ ''#>'' @ r) = Some ([], i, r)"
  using match_at_token [OF assms, of r] by simp

text \<open>
  Claim C9. Let an async context be active whose id is made of digits and dots (the root id
  is empty, and \<^verbatim>\<open>nextHydrateContext\<close> only appends digits and a dot). When \<^verbatim>\<open>Suspense\<close>
  returns while its boundary is still pending (the fan-in test fails after the children
  were rendered), its result resolves to \<^verbatim>\<open><#\<close>, the boundary id, \<^verbatim>\<open>#>\<close>; the id is not
  empty and made of digits and dots; the driver's pattern matches this text as one token
  with that id, also when any text follows it.
\<close>

theorem pending_boundary_token:
  assumes "shared_context s = Some ctx0" and "hc_async ctx0"
    and "path_id (hc_id ctx0)"
    and "bid = boundary_id (if hc_streaming ctx0 then ctx0\<lparr>hc_count := hc_count ctx0 + 1\<rparr> else ctx0)"
    and "Suspense props s = (Inr out, s')"
    and "fan_in s' bid \<noteq> Some True"
  shows "resolveSSRNode out = ''<#'' @ bid @ ''#>''
       \<and> bid \<noteq> [] \<and> path_id bid
       \<and> smatch (resolveSSRNode out) = Some ([], bid, [])
       \<and> (\<forall>rest. match_at (resolveSSRNode out @ rest) = Some (bid, rest))
       \<and> (\<forall>t p i r. smatch t = Some (p, i, r) \<longrightarrow> t = p @ token i @ r \<and> i \<noteq> [] \<and> path_id i)"
proof -
  let ?ctx = "if hc_streaming ctx0 then ctx0\<lparr>hc_count := hc_count ctx0 + 1\<rparr> else ctx0"
  from suspense_async [OF assms(1,2) refl assms(4,5)] assms(6)
  have out: "out = Obj (Str (token bid))" by auto
  have id: "hc_id ?ctx = hc_id ctx0" by simp
  have b: "bid = hc_id ctx0 @ string_of_nat (hc_count ?ctx)"
    unfolding assms(4) boundary_id_def id ..
  have ne: "bid \<noteq> []" unfolding b using string_of_nat_nonempty by simp
  have idc: "\<forall>c\<in>set bid. is_idc c"
    unfolding b using assms(3) string_of_nat_digits [of "hc_count ?ctx"] is_idc_digit
    by (auto simp: path_id_def)
  have r: "resolveSSRNode out = ''<#'' @ bid @ ''#>''" by (simp add: out token_def)
  have m: "match_at (resolveSSRNode out @ rest) = Some (bid, rest)" for rest
    using match_at_token [OF ne idc, of rest] by (simp add: r)
  have sm: "smatch (resolveSSRNode out) = Some ([], bid, [])"
    using smatch_token [OF ne idc, of "[]"] by (simp add: r)
  have pb: "path_id bid" using idc by (simp add: path_id_def)
  have ex: "t = p @ token i @ r \<and> i \<noteq> [] \<and> path_id i" if "smatch t = Some (p, i, r)" for t p i r
    using smatch_decomp [OF that] by (simp add: token_def path_id_def)
  from r ne pb sm m ex show ?thesis by blast
qed

lemma ready_facts:
  "shared_context ready = Some (root_ctx\<lparr>hc_count := 1\<rparr>)"
  "hc_async (root_ctx\<lparr>hc_count := 1\<rparr>)"
  "\<not> hc_streaming (root_ctx\<lparr>hc_count := 1\<rparr>)"
  "hc_id (root_ctx\<lparr>hc_count := 1\<rparr>) = []"
  "boundary_id (root_ctx\<lparr>hc_count := 1\<rparr>) = ''1''"
  "fst (Suspense (reader 0) ready) = Inr (Obj (Str ''<#1#>''))"
  "fan_in (snd (Suspense (reader 0) ready)) ''1'' = Some False"
  by code_simp+

text \<open>
  Claim C9, an instance: the boundary \<open>reader 0\<close> entered in the state \<open>ready\<close> returns
  the token \<^verbatim>\<open><#1#>\<close>.
\<close>

theorem pending_boundary_token_witness:
  "shared_context ready = Some (root_ctx\<lparr>hc_count := 1\<rparr>)
   \<and> hc_async (root_ctx\<lparr>hc_count := 1\<rparr>)
   \<and> fst (Suspense (reader 0) ready) = Inr (Obj (Str ''<#1#>''))
   \<and> fan_in (snd (Suspense (reader 0) ready)) ''1'' = Some False
   \<and> resolveSSRNode (Obj (Str ''<#1#>'')) = ''<#1#>''
   \<and> smatch (resolveSSRNode (Obj (Str ''<#1#>''))) = Some ([], ''1'', [])"
proof -
  have e: "Suspense (reader 0) ready = (Inr (Obj (Str ''<#1#>'')), snd (Suspense (reader 0) ready))"
    using ready_facts(6) by (simp add: prod_eq_iff)
  have b: "''1'' = boundary_id (if hc_streaming (root_ctx\<lparr>hc_count := 1\<rparr>)
      then root_ctx\<lparr>hc_count := 1\<rparr>\<lparr>hc_count := hc_count (root_ctx\<lparr>hc_count := 1\<rparr>) + 1\<rparr>
      else root_ctx\<lparr>hc_count := 1\<rparr>)"
    using ready_facts(3,5) by simp
  have i: "path_id (hc_id (root_ctx\<lparr>hc_count := 1\<rparr>))"
    using ready_facts(4) by (simp add: path_id_def)
  have f: "fan_in (snd (Suspense (reader 0) ready)) ''1'' \<noteq> Some True"
    using ready_facts(7) by simp
  note T = pending_boundary_token [OF ready_facts(1,2) i b e f]
  from T have 1: "resolveSSRNode (Obj (Str ''<#1#>'')) = ''<#1#>''" by simp
  from T have 2: "smatch (resolveSSRNode (Obj (Str ''<#1#>''))) = Some ([], ''1'', [])"
    by (rule conjunct2 [THEN conjunct2, THEN conjunct2, THEN conjunct1])
  from 1 2 ready_facts show ?thesis by simp
qed

subsection \<open>Claim C1: the done signal\<close>

text \<open>
  Claim C1, as amended. The done signal of a boundary fires at the two places where the
  fan-in test is made, and there exactly when \<^verbatim>\<open>completedCount\<close> equals the size of
  \<^verbatim>\<open>resources\<close>: at the end of a call of \<^verbatim>\<open>Suspense\<close> in async mode, after the children
  were rendered, and at the end of a call of the boundary's \<^verbatim>\<open>completed\<close>, after they
  were rendered again. Nothing keeps the signal from firing again: every call of
  \<^verbatim>\<open>Suspense\<close> for the same id obtains the callback anew and makes the test anew.
\<close>

theorem fan_in_signal:
  assumes "shared_context s = Some ctx0" and "hc_async ctx0"
    and "ctx = (if hc_streaming ctx0 then ctx0\<lparr>hc_count := hc_count ctx0 + 1\<rparr> else ctx0)"
    and "bid = boundary_id ctx"
  shows "(Suspense props s = (Inr out, s') \<longrightarrow>
          (\<exists>s1 res s4.
              (if hc_streaming ctx0 then (\<exists>v. createComponent (children props) s = (Inr v, s1)) else s1 = s)
            \<and> runSuspense props ctx bid (enter_boundary bid s1) = (Inr res, s4)
            \<and> (fan_in s4 bid = Some True \<or> fan_in s4 bid = Some False)
            \<and> trace s' = trace s4 @ (if fan_in s4 bid = Some True then [Done bid None] else [])))
       \<and> (completed_cb props ctx bid t = (None, t') \<longrightarrow>
          (\<exists>res t4.
              runSuspense props ctx bid t = (Inr res, t4)
            \<and> (fan_in t4 bid = Some True \<or> fan_in t4 bid = Some False)
            \<and> trace t' = trace t4 @
                 (if fan_in t4 bid = Some True then [Done bid (Some (resolveSSRNode res))] else [])))"
proof (intro conjI impI)
  assume "Suspense props s = (Inr out, s')"
  from suspense_async [OF assms this] obtain s1 res s4
    where 1: "if hc_streaming ctx0 then (\<exists>v. createComponent (children props) s = (Inr v, s1)) else s1 = s"
      and 2: "runSuspense props ctx bid (enter_boundary bid s1) = (Inr res, s4)"
      and 3: "fan_in s4 bid = Some True \<and> out = res \<and> s' = done_cb bid None s4
         \<or> fan_in s4 bid = Some False \<and> out = Obj (Str (token bid)) \<and> s' = s4"
    by blast
  from 3 have "fan_in s4 bid = Some True \<or> fan_in s4 bid = Some False" by blast
  moreover from 3 have "trace s' = trace s4 @ (if fan_in s4 bid = Some True then [Done bid None] else [])"
    by auto
  ultimately show "\<exists>s1 res s4.
              (if hc_streaming ctx0 then (\<exists>v. createComponent (children props) s = (Inr v, s1)) else s1 = s)
            \<and> runSuspense props ctx bid (enter_boundary bid s1) = (Inr res, s4)
            \<and> (fan_in s4 bid = Some True \<or> fan_in s4 bid = Some False)
            \<and> trace s' = trace s4 @ (if fan_in s4 bid = Some True then [Done bid None] else [])"
    using 1 2 by blast
next
  assume c: "completed_cb props ctx bid t = (None, t')"
  obtain r4 t4 where r: "runSuspense props ctx bid t = (r4, t4)"
    by (cases "runSuspense props ctx bid t") auto
  from c r obtain res where r4: "r4 = Inr res"
    by (cases r4) (auto simp: completed_cb_def)
  from c r r4 have "fan_in t4 bid = Some True \<and> t' = done_cb bid (Some (resolveSSRNode res)) t4
      \<or> fan_in t4 bid = Some False \<and> t' = t4"
    by (auto simp: completed_cb_def split: option.splits bool.splits)
  then have "(fan_in t4 bid = Some True \<or> fan_in t4 bid = Some False)
      \<and> trace t' = trace t4 @
           (if fan_in t4 bid = Some True then [Done bid (Some (resolveSSRNode res))] else [])"
    by auto
  with r r4 show "\<exists>res t4.
              runSuspense props ctx bid t = (Inr res, t4)
            \<and> (fan_in t4 bid = Some True \<or> fan_in t4 bid = Some False)
            \<and> trace t' = trace t4 @
                 (if fan_in t4 bid = Some True then [Done bid (Some (resolveSSRNode res))] else [])"
    by blast
qed

text \<open>
  Claim C1, an instance: the boundary \<open>reader 0\<close> entered in the state \<open>ready\<close>, and its
  \<^verbatim>\<open>completed\<close> called in the state that call leaves.
\<close>

theorem fan_in_signal_witness:
  "shared_context ready = Some (root_ctx\<lparr>hc_count := 1\<rparr>)
   \<and> hc_async (root_ctx\<lparr>hc_count := 1\<rparr>)
   \<and> fst (Suspense (reader 0) ready) = Inr (Obj (Str ''<#1#>''))
   \<and> fst (completed_cb (reader 0) (root_ctx\<lparr>hc_count := 1\<rparr>) ''1'' (snd (Suspense (reader 0) ready))) = None
   \<and> (\<exists>res s4. runSuspense (reader 0) (root_ctx\<lparr>hc_count := 1\<rparr>) ''1'' (enter_boundary ''1'' ready) = (Inr res, s4)
          \<and> trace (snd (Suspense (reader 0) ready))
               = trace s4 @ (if fan_in s4 ''1'' = Some True then [Done ''1'' None] else []))
   \<and> (\<exists>res t4. runSuspense (reader 0) (root_ctx\<lparr>hc_count := 1\<rparr>) ''1'' (snd (Suspense (reader 0) ready)) = (Inr res, t4)
          \<and> trace (snd (completed_cb (reader 0) (root_ctx\<lparr>hc_count := 1\<rparr>) ''1'' (snd (Suspense (reader 0) ready))))
               = trace t4 @ (if fan_in t4 ''1'' = Some True then [Done ''1'' (Some (resolveSSRNode res))] else []))"
proof -
  let ?c = "root_ctx\<lparr>hc_count := 1\<rparr>"
  let ?t = "snd (Suspense (reader 0) ready)"
  have e: "Suspense (reader 0) ready = (Inr (Obj (Str ''<#1#>'')), ?t)"
    using ready_facts(6) by (simp add: prod_eq_iff)
  have n: "fst (completed_cb (reader 0) ?c ''1'' ?t) = None" by code_simp
  then have k: "completed_cb (reader 0) ?c ''1'' ?t = (None, snd (completed_cb (reader 0) ?c ''1'' ?t))"
    by (simp add: prod_eq_iff)
  have x: "?c = (if hc_streaming ?c then ?c\<lparr>hc_count := hc_count ?c + 1\<rparr> else ?c)"
    using ready_facts(3) by simp
  have b: "''1'' = boundary_id ?c" using ready_facts(5) by simp
  note T = fan_in_signal [OF ready_facts(1,2) x b, of "reader 0" "Obj (Str ''<#1#>'')" ?t ?t
      "snd (completed_cb (reader 0) ?c ''1'' ?t)"]
  from T [THEN conjunct1, THEN mp, OF e] obtain s1 res s4
    where 1: "if hc_streaming ?c then (\<exists>v. createComponent (children (reader 0)) ready = (Inr v, s1))
              else s1 = ready"
      and 2: "runSuspense (reader 0) ?c ''1'' (enter_boundary ''1'' s1) = (Inr res, s4)"
      and 3: "trace ?t = trace s4 @ (if fan_in s4 ''1'' = Some True then [Done ''1'' None] else [])"
    by blast
  from 1 ready_facts(3) have "s1 = ready" by simp
  with 2 3 have A: "\<exists>res s4. runSuspense (reader 0) ?c ''1'' (enter_boundary ''1'' ready) = (Inr res, s4)
          \<and> trace ?t = trace s4 @ (if fan_in s4 ''1'' = Some True then [Done ''1'' None] else [])"
    by blast
  from T [THEN conjunct2, THEN mp, OF k]
  have B: "\<exists>res t4. runSuspense (reader 0) ?c ''1'' ?t = (Inr res, t4)
          \<and> trace (snd (completed_cb (reader 0) ?c ''1'' ?t))
               = trace t4 @ (if fan_in t4 ''1'' = Some True then [Done ''1'' (Some (resolveSSRNode res))] else [])"
    by blast
  show ?thesis
    by (intro conjI ready_facts(1) ready_facts(2) ready_facts(6) n A B)
qed

text \<open>
  Claim C1 as stated fails. In the nested scenario the inner boundary \<^verbatim>\<open>0.0.0\<close> has nothing
  to wait for and fires in the first pass. When the resource resolves, \<^verbatim>\<open>completed\<close> of the
  outer boundary renders its children again, \<^verbatim>\<open>Suspense\<close> runs again for the inner
  boundary, and its done signal fires a second time.
\<close>

theorem nested_boundary_fires_twice:
  "trace (awaitSuspense nested_app (init_state root_ctx)) = [Done ''0.0.0'' None]
   \<and> handlers (awaitSuspense nested_app (init_state root_ctx)) = [(0, 0)]
   \<and> trace (snd (load_then nested_callbacks 0 (Str ''X'') (awaitSuspense nested_app (init_state root_ctx))))
       = [Done ''0.0.0'' None, Completed ''1'', Done ''0.0.0'' None, Done ''1'' (Some ''XI'')]"
  by code_simp

subsection \<open>Claim C5: calls of completed\<close>




lemma fires_fields [simp]:
  "fires (s\<lparr>resources := x\<rparr>) c = fires s c"
  "fires (s\<lparr>trace := y\<rparr>) c = fires s c"
  by (simp_all add: fires_def)

lemma count_up_fields [simp]:
  "trace (count_up c s) = trace s"
  "rinsts (count_up c s) = rinsts s"
  "linsts (count_up c s) = linsts s"
  "resources (count_up c s) = resources s"
  by (simp_all add: count_up_def split: option.splits)

lemma counted_fields [simp]:
  "trace (counted cs s) = trace s"
  "rinsts (counted cs s) = rinsts s"
  "linsts (counted cs s) = linsts s"
  "resources (counted cs s) = resources s"
  by (induction cs arbitrary: s) simp_all

lemma count_up_other: "c' \<noteq> c \<Longrightarrow> suspense (count_up c s) c' = suspense s c'"
  by (simp add: count_up_def split: option.splits)


lemma counted_other: "c' \<notin> set cs \<Longrightarrow> suspense (counted cs s) c' = suspense s c'"
  by (induction cs arbitrary: s) (simp_all add: count_up_other)

lemma counted_snoc: "counted (cs @ [c]) s = count_up c (counted cs s)"
  by (induction cs arbitrary: s) simp_all

lemma counted_member:
  "distinct cs \<Longrightarrow> c \<in> set cs \<Longrightarrow> suspense s c = Some v \<Longrightarrow>
   suspense (counted cs s) c = Some (v\<lparr>completedCount := completedCount v + 1\<rparr>)"
proof (induction cs arbitrary: s)
  case Nil
  then show ?case by simp
next
  case (Cons a cs)
  show ?case
  proof (cases "c = a")
    case True
    with Cons.prems have "c \<notin> set cs" by simp
    then have "suspense (counted cs (count_up a s)) c = suspense (count_up a s) c"
      by (rule counted_other)
    with True Cons.prems(3) show ?thesis by (simp add: count_up_def)
  next
    case False
    with Cons.prems have 1: "distinct cs" "c \<in> set cs" by simp_all
    from False Cons.prems(3) have "suspense (count_up a s) c = Some v" by (simp add: count_up_other)
    from Cons.IH [OF 1 this] show ?thesis by simp
  qed
qed











text \<open>
  An item that is registered is not always counted. A lazy component called twice under
  one boundary registers two ids and attaches two reactions, which share one \<^verbatim>\<open>contexts\<close>
  set. The first reaction counts the boundary once and empties the set, the second finds
  it empty: the count stays at 1 of 2 and \<^verbatim>\<open>completed\<close> is never called.
\<close>

lemma lazy_called_twice:
  "lhandlers (lazy_waiting twice) = [0, 0]
   \<and> suspense (lazy_waiting twice) ''0''
       = Some \<lparr>completedCount = 0, sresources = [''0.0'', ''0.1'']\<rparr>
   \<and> suspense (snd (lazy_then (lazy_callbacks twice) 0
         (snd (lazy_then (lazy_callbacks twice) 0 (lazy_waiting twice))))) ''0''
       = Some \<lparr>completedCount = 1, sresources = [''0.0'', ''0.1'']\<rparr>
   \<and> trace (snd (lazy_then (lazy_callbacks twice) 0
         (snd (lazy_then (lazy_callbacks twice) 0 (lazy_waiting twice))))) = []"
  by code_simp

subsection \<open>Claim C10: the loading flag\<close>

lemma flags_kept_refl [simp]: "flags_kept s s"
  by (simp add: flags_kept_def)


lemma flags_kept_same: "rinsts t = rinsts s \<Longrightarrow> flags_kept s t"
  by (simp add: flags_kept_def loading_of_def)


lemma flags_kept_register: "flags_kept s (register b i s)"
  by (rule flags_kept_same) (simp add: register_def split: option.splits)













subsection \<open>Claim C7: resolution without a boundary\<close>

lemma awaitSuspense_immediate:
  assumes "fn (s\<lparr>registry := {}, dcache := Map.empty, memo := None, promise := Pending,
                 installed := True\<rparr>) = (Inr v, s1)"
    and "registry s1 = {}" and "promise s1 = Pending"
  shows "promise (awaitSuspense fn s) = Resolved v"
  using assms by (simp add: awaitSuspense_def createMemo_def resolve_def)

text \<open>
  Claim C7 fails on the code. A thunk that registers no boundary and returns the template
  object \<^verbatim>\<open>{ t: "<p>hi</p>" }\<close> leaves the registry empty, and the promise is resolved in
  the same turn with that object, not with its string form \<^verbatim>\<open><p>hi</p>\<close>: the line
  \<^verbatim>\<open>if (!registry.size) resolve(res());\<close> does not call \<^verbatim>\<open>resolveSSRNode\<close>, as the
  queued pass does.
\<close>

theorem immediate_resolution_is_raw:
  "registry (awaitSuspense static_page (init_state root_ctx)) = {}
   \<and> promise (awaitSuspense static_page (init_state root_ctx)) = Resolved (Obj (Str ''<p>hi</p>''))
   \<and> resolveSSRNode (Obj (Str ''<p>hi</p>'')) = ''<p>hi</p>''
   \<and> promise (awaitSuspense static_page (init_state root_ctx)) \<noteq> Resolved (Str ''<p>hi</p>'')"
  by (simp add: awaitSuspense_def createMemo_def static_page_def return_c_def resolve_def
      init_state_def)

end
